theory Spec2Isabelle
  imports Main "HOL-Library.AList"
begin

section \<open>Strings of the host language\<close>

text \<open>
  The validator \<^verbatim>\<open>validate-skill.js\<close> works on JavaScript strings. A string is modelled
  as a \<^typ>\<open>string\<close>, one \<^typ>\<open>char\<close> per UTF-16 code unit, for the code units below 256.
  Among those, the regular expression class \<^verbatim>\<open>\s\<close> and \<^verbatim>\<open>String.prototype.trim\<close> treat
  TAB, LF, VT, FF, CR, SPACE and NBSP as white space; \<^verbatim>\<open>\w\<close> is \<^verbatim>\<open>[A-Za-z0-9_]\<close>; the
  dot of a regular expression matches everything except the line terminators LF and CR.
\<close>

definition LF :: char where
  "LF = CHR 0x0A"

definition CR :: char where
  "CR = CHR 0x0D"

definition dquote :: char where
  "dquote = CHR 0x22"

definition squote :: char where
  "squote = CHR 0x27"

definition backslash :: char where
  "backslash = CHR 0x5C"

definition is_space :: "char \<Rightarrow> bool" where
  "is_space c \<longleftrightarrow>
     c \<in> set [CHR 0x09, CHR 0x0A, CHR 0x0B, CHR 0x0C, CHR 0x0D, CHR 0x20, CHR 0xA0]"

definition is_digit :: "char \<Rightarrow> bool" where
  "is_digit c \<longleftrightarrow> c \<in> set ''0123456789''"

definition is_word :: "char \<Rightarrow> bool" where
  "is_word c \<longleftrightarrow>
     c \<in> set ''abcdefghijklmnopqrstuvwxyzABCDEFGHIJKLMNOPQRSTUVWXYZ0123456789_''"

definition is_key_char :: "char \<Rightarrow> bool" where
  \<comment> \<open>the class \<^verbatim>\<open>[\w.-]\<close>\<close>
  "is_key_char c \<longleftrightarrow> is_word c \<or> c = CHR ''.'' \<or> c = CHR ''-''"

definition is_line_terminator :: "char \<Rightarrow> bool" where
  "is_line_terminator c \<longleftrightarrow> c = LF \<or> c = CR"

definition trim :: "string \<Rightarrow> string" where
  "trim s = rev (dropWhile is_space (rev (dropWhile is_space s)))"

definition starts_with :: "string \<Rightarrow> string \<Rightarrow> bool" where
  \<comment> \<open>\<^verbatim>\<open>s.startsWith(p)\<close>\<close>
  "starts_with p s \<longleftrightarrow> take (length p) s = p"

definition ends_with :: "string \<Rightarrow> string \<Rightarrow> bool" where
  \<comment> \<open>\<^verbatim>\<open>s.endsWith(p)\<close>\<close>
  "ends_with p s \<longleftrightarrow> length p \<le> length s \<and> drop (length s - length p) s = p"

definition slice :: "int \<Rightarrow> int \<Rightarrow> string \<Rightarrow> string" where
  \<comment> \<open>\<^verbatim>\<open>s.slice(start, end)\<close>: negative positions count from the end, and an end before
      the start gives the empty string\<close>
  "slice start end s =
     (let len = int (length s);
          from = (if start < 0 then max (len + start) 0 else min start len);
          to = (if end < 0 then max (len + end) 0 else min end len)
      in take (nat (max (to - from) 0)) (drop (nat from) s))"

fun split_nl :: "string \<Rightarrow> string list" where
  \<comment> \<open>\<^verbatim>\<open>text.split('\n')\<close>; the result is never empty\<close>
  "split_nl [] = [[]]"
| "split_nl (c # cs) =
     (if c = LF then [] # split_nl cs
      else (case split_nl cs of [] \<Rightarrow> [[c]] | l # ls \<Rightarrow> (c # l) # ls))"

fun join_nl :: "string list \<Rightarrow> string" where
  \<comment> \<open>\<^verbatim>\<open>lines.join('\n')\<close>\<close>
  "join_nl [] = []"
| "join_nl [l] = l"
| "join_nl (l # m # ls) = l @ LF # join_nl (m # ls)"

section \<open>The regular expressions of the parser\<close>

definition blank_line :: "string \<Rightarrow> bool" where
  \<comment> \<open>\<^verbatim>\<open>/^\s*$/.test(line)\<close>\<close>
  "blank_line line \<longleftrightarrow> list_all is_space line"

definition comment_line :: "string \<Rightarrow> bool" where
  \<comment> \<open>\<^verbatim>\<open>/^\s*#/.test(line)\<close>\<close>
  "comment_line line \<longleftrightarrow>
     (case dropWhile is_space line of [] \<Rightarrow> False | c # _ \<Rightarrow> c = CHR ''#'')"

definition search_nonspace :: "string \<Rightarrow> int" where
  \<comment> \<open>\<^verbatim>\<open>line.search(/\S/)\<close>: the index of the first character that is not white
      space, and -1 when there is none\<close>
  "search_nonspace line =
     (if list_all is_space line then - 1 else int (length (takeWhile is_space line)))"

definition kv_match :: "string \<Rightarrow> (string \<times> string) option" where
  \<comment> \<open>\<^verbatim>\<open>line.match(/^(\s*)([\w.-]+)\s*:\s*(.*)/)\<close>, returning groups 2 and 3. The classes
      of neighbouring pieces are disjoint, so each greedy piece takes its longest run and
      backtracking cannot find another match.\<close>
  "kv_match line =
     (let after_indent = dropWhile is_space line;
          key = takeWhile is_key_char after_indent;
          after_key = dropWhile is_space (dropWhile is_key_char after_indent)
      in if key = [] then None
         else (case after_key of
                 [] \<Rightarrow> None
               | c # after_colon \<Rightarrow>
                   if c = CHR '':'' then
                     Some (key, takeWhile (\<lambda>c. \<not> is_line_terminator c)
                                  (dropWhile is_space after_colon))
                   else None))"

definition strip_dash :: "string \<Rightarrow> string" where
  \<comment> \<open>\<^verbatim>\<open>l.trim().replace(/^-\s*/, '')\<close>\<close>
  "strip_dash l =
     (case trim l of
        [] \<Rightarrow> []
      | c # cs \<Rightarrow> if c = CHR ''-'' then dropWhile is_space cs else c # cs)"

section \<open>The built-in JSON.parse\<close>

text \<open>
  The parser hands inline values that start with a brace or a bracket to the built-in
  \<^verbatim>\<open>JSON.parse\<close>. It is modelled by a tokenizer and a stack automaton for the JSON
  grammar. A number keeps its lexeme (the double it denotes is not computed); a string is
  the list of its code units after unescaping, since \<^verbatim>\<open>\uXXXX\<close> may lie outside
  \<^typ>\<open>char\<close>. \<^const>\<open>None\<close> stands for the \<^verbatim>\<open>SyntaxError\<close> that JSON.parse throws.
\<close>

datatype json =
    JNull
  | JBool bool
  | JNum string
  | JStr "nat list"
  | JArr "json list"
  | JObj "(nat list \<times> json) list"

datatype token = LBrace | RBrace | LBracket | RBracket | Colon | Comma | Atom json

definition json_ws :: "char \<Rightarrow> bool" where
  "json_ws c \<longleftrightarrow> c \<in> set [CHR 0x20, CHR 0x09, CHR 0x0A, CHR 0x0D]"

definition hex_val :: "char \<Rightarrow> nat option" where
  "hex_val c = map_of (zip ''0123456789abcdefABCDEF''
     [0, 1, 2, 3, 4, 5, 6, 7, 8, 9, 10, 11, 12, 13, 14, 15, 10, 11, 12, 13, 14, 15]) c"

definition hex4 :: "string \<Rightarrow> nat option" where
  \<comment> \<open>the four hexadecimal digits of a \<^verbatim>\<open>\uXXXX\<close> escape\<close>
  "hex4 s =
     (case map hex_val (take 4 s) of
        [Some a, Some b, Some c, Some d] \<Rightarrow> Some (((a * 16 + b) * 16 + c) * 16 + d)
      | _ \<Rightarrow> None)"

definition escape_code :: "char \<Rightarrow> nat option" where
  \<comment> \<open>the single-character escapes: quote, backslash, slash, b, f, n, r, t\<close>
  "escape_code c = map_of (zip (dquote # backslash # ''/bfnrt'')
     [0x22, 0x5C, 0x2F, 0x08, 0x0C, 0x0A, 0x0D, 0x09]) c"

definition cons_unit :: "nat \<Rightarrow> (nat list \<times> string) option \<Rightarrow> (nat list \<times> string) option" where
  "cons_unit u r = (case r of None \<Rightarrow> None | Some (us, rest) \<Rightarrow> Some (u # us, rest))"

fun lex_string :: "string \<Rightarrow> (nat list \<times> string) option" where
  \<comment> \<open>the characters after an opening quote, up to the closing one\<close>
  "lex_string [] = None"
| "lex_string (c # cs) =
     (if c = dquote then Some ([], cs)
      else if c = backslash then
        (case cs of
           [] \<Rightarrow> None
         | e # cs' \<Rightarrow>
             if e = CHR ''u'' then
               (case hex4 cs' of
                  None \<Rightarrow> None
                | Some u \<Rightarrow> cons_unit u (lex_string (drop 4 cs')))
             else
               (case escape_code e of
                  None \<Rightarrow> None
                | Some u \<Rightarrow> cons_unit u (lex_string cs')))
      else if (of_char c :: nat) < 0x20 then None
      else cons_unit (of_char c) (lex_string cs))"

definition lex_digits :: "string \<Rightarrow> (string \<times> string) option" where
  \<comment> \<open>one or more digits\<close>
  "lex_digits s =
     (if takeWhile is_digit s = [] then None
      else Some (takeWhile is_digit s, dropWhile is_digit s))"

definition lex_int :: "string \<Rightarrow> (string \<times> string) option" where
  \<comment> \<open>\<^verbatim>\<open>0\<close> alone, or digits that do not start with \<^verbatim>\<open>0\<close>\<close>
  "lex_int s =
     (case s of
        [] \<Rightarrow> None
      | c # cs \<Rightarrow> if c = CHR ''0'' then Some ([c], cs) else lex_digits s)"

definition lex_frac :: "string \<Rightarrow> (string \<times> string) option" where
  \<comment> \<open>an optional fraction: a dot and one or more digits\<close>
  "lex_frac s =
     (case s of
        [] \<Rightarrow> Some ([], s)
      | c # cs \<Rightarrow>
          if c = CHR ''.'' then
            (case lex_digits cs of None \<Rightarrow> None | Some (ds, rest) \<Rightarrow> Some (c # ds, rest))
          else Some ([], s))"

definition lex_exp :: "string \<Rightarrow> (string \<times> string) option" where
  \<comment> \<open>an optional exponent: e or E, an optional sign, one or more digits\<close>
  "lex_exp s =
     (case s of
        [] \<Rightarrow> Some ([], s)
      | c # cs \<Rightarrow>
          if c = CHR ''e'' \<or> c = CHR ''E'' then
            (case cs of
               [] \<Rightarrow> None
             | g # cs' \<Rightarrow>
                 if g = CHR ''+'' \<or> g = CHR ''-'' then
                   (case lex_digits cs' of
                      None \<Rightarrow> None
                    | Some (ds, rest) \<Rightarrow> Some (c # g # ds, rest))
                 else
                   (case lex_digits cs of
                      None \<Rightarrow> None
                    | Some (ds, rest) \<Rightarrow> Some (c # ds, rest)))
          else Some ([], s))"

definition lex_number :: "string \<Rightarrow> (string \<times> string) option" where
  "lex_number s =
     (let (sign, s0) = (case s of
                          [] \<Rightarrow> ([], s)
                        | c # cs \<Rightarrow> if c = CHR ''-'' then ([c], cs) else ([], s))
      in case lex_int s0 of
           None \<Rightarrow> None
         | Some (ip, s1) \<Rightarrow>
             (case lex_frac s1 of
                None \<Rightarrow> None
              | Some (fp, s2) \<Rightarrow>
                  (case lex_exp s2 of
                     None \<Rightarrow> None
                   | Some (ep, s3) \<Rightarrow> Some (sign @ ip @ fp @ ep, s3))))"

definition cons_token :: "token \<Rightarrow> token list option \<Rightarrow> token list option" where
  "cons_token t r = map_option ((#) t) r"

lemma lex_string_shorter: "lex_string s = Some (us, rest) \<Longrightarrow> length rest < length s"
proof (induction s arbitrary: us rest rule: lex_string.induct)
  case 1
  then show ?case by simp
next
  case (2 c cs)
  show ?case
  proof (cases "c = dquote")
    case True
    with "2.prems" show ?thesis by simp
  next
    case nq: False
    show ?thesis
    proof (cases "c = backslash")
      case True
      with nq "2.prems" "2.IH"(1,2) show ?thesis
        by (fastforce simp: cons_unit_def split: list.splits option.splits if_splits)
    next
      case False
      with nq "2.prems" "2.IH"(3) show ?thesis
        by (fastforce simp: cons_unit_def split: option.splits if_splits)
    qed
  qed
qed

lemma lex_digits_shorter: "lex_digits s = Some (ds, rest) \<Longrightarrow> length rest < length s"
proof -
  assume a: "lex_digits s = Some (ds, rest)"
  then have "takeWhile is_digit s \<noteq> []" and "rest = dropWhile is_digit s"
    by (auto simp: lex_digits_def split: if_splits)
  moreover have "length (takeWhile is_digit s) + length (dropWhile is_digit s) = length s"
    by (metis length_append takeWhile_dropWhile_id)
  ultimately show ?thesis by (cases "takeWhile is_digit s") auto
qed

lemma lex_int_shorter: "lex_int s = Some (ds, rest) \<Longrightarrow> length rest < length s"
  by (auto simp: lex_int_def split: list.splits if_splits dest: lex_digits_shorter)

lemma lex_frac_shorter: "lex_frac s = Some (ds, rest) \<Longrightarrow> length rest \<le> length s"
  by (auto simp: lex_frac_def split: list.splits if_splits option.splits
           dest!: lex_digits_shorter)

lemma lex_exp_shorter: "lex_exp s = Some (ds, rest) \<Longrightarrow> length rest \<le> length s"
  by (auto simp: lex_exp_def split: list.splits if_splits option.splits
           dest!: lex_digits_shorter)

lemma lex_number_shorter:
  assumes "lex_number s = Some (lexeme, rest)"
  shows "length rest < length s"
proof -
  obtain sign s0 where s0: "(case s of [] \<Rightarrow> ([], s)
      | c # cs \<Rightarrow> if c = CHR ''-'' then ([c], cs) else ([], s)) = (sign, s0)"
    by (cases "case s of [] \<Rightarrow> ([], s)
      | c # cs \<Rightarrow> if c = CHR ''-'' then ([c], cs) else ([], s)") auto
  then have l0: "length s0 \<le> length s"
    by (auto split: list.splits if_splits)
  from assms s0 obtain ip s1 fp s2 ep where
    "lex_int s0 = Some (ip, s1)" "lex_frac s1 = Some (fp, s2)" "lex_exp s2 = Some (ep, rest)"
    by (auto simp: lex_number_def split: option.splits)
  then have "length s1 < length s0" "length s2 \<le> length s1" "length rest \<le> length s2"
    by (auto dest: lex_int_shorter lex_frac_shorter lex_exp_shorter)
  with l0 show ?thesis by linarith
qed

definition next_token :: "char \<Rightarrow> string \<Rightarrow> (token \<times> string) option" where
  \<comment> \<open>the token that starts with the character \<open>c\<close>, and the text after it\<close>
  "next_token c cs =
     (if c = CHR ''{'' then Some (LBrace, cs)
      else if c = CHR ''}'' then Some (RBrace, cs)
      else if c = CHR ''['' then Some (LBracket, cs)
      else if c = CHR '']'' then Some (RBracket, cs)
      else if c = CHR '':'' then Some (Colon, cs)
      else if c = CHR '','' then Some (Comma, cs)
      else if c = dquote then
        (case lex_string cs of
           None \<Rightarrow> None
         | Some (us, rest) \<Rightarrow> Some (Atom (JStr us), rest))
      else if c = CHR ''-'' \<or> is_digit c then
        (case lex_number (c # cs) of
           None \<Rightarrow> None
         | Some (lexeme, rest) \<Rightarrow> Some (Atom (JNum lexeme), rest))
      else if starts_with ''true'' (c # cs) then Some (Atom (JBool True), drop 3 cs)
      else if starts_with ''false'' (c # cs) then Some (Atom (JBool False), drop 4 cs)
      else if starts_with ''null'' (c # cs) then Some (Atom JNull, drop 3 cs)
      else None)"

lemma next_token_cases:
  assumes "next_token c cs = Some (t, rest)"
  shows "(\<exists>us. lex_string cs = Some (us, rest))
     \<or> (\<exists>lexeme. lex_number (c # cs) = Some (lexeme, rest))
     \<or> (\<exists>n. rest = drop n cs)"
proof (cases "c = dquote")
  case True
  with assms show ?thesis
    by (auto simp: next_token_def dquote_def split: option.split_asm)
next
  case nd: False
  show ?thesis
  proof (cases "c = CHR ''-'' \<or> is_digit c")
    case True
    then have "c \<noteq> CHR ''{''" "c \<noteq> CHR ''}''" "c \<noteq> CHR ''[''" "c \<noteq> CHR '']''"
      "c \<noteq> CHR '':''" "c \<noteq> CHR '',''"
      by (auto simp: is_digit_def)
    with True nd have "next_token c cs =
        (case lex_number (c # cs) of
           None \<Rightarrow> None
         | Some (lexeme, rest) \<Rightarrow> Some (Atom (JNum lexeme), rest))"
      unfolding next_token_def by (simp only: if_False if_True)
    with assms show ?thesis
      by (auto split: option.split_asm)
  next
    case False
    have d0: "cs = drop 0 cs" by simp
    from False nd assms have "rest = cs \<or> rest = drop 3 cs \<or> rest = drop 4 cs"
      by (simp add: next_token_def split: if_split_asm)
    with d0 show ?thesis by metis
  qed
qed

lemma next_token_shorter:
  assumes "next_token c cs = Some (t, rest)"
  shows "length rest \<le> length cs"
proof -
  consider (str) us where "lex_string cs = Some (us, rest)"
    | (num) lexeme where "lex_number (c # cs) = Some (lexeme, rest)"
    | (drp) n where "rest = drop n cs"
    using next_token_cases [OF assms] by blast
  then show ?thesis
  proof cases
    case str
    from lex_string_shorter [OF this] show ?thesis by simp
  next
    case num
    from lex_number_shorter [OF this] show ?thesis by simp
  next
    case drp
    then show ?thesis by simp
  qed
qed

function tokenize :: "string \<Rightarrow> token list option" where
  "tokenize [] = Some []"
| "tokenize (c # cs) =
     (if json_ws c then tokenize cs
      else (case next_token c cs of
              None \<Rightarrow> None
            | Some (t, rest) \<Rightarrow> cons_token t (tokenize rest)))"
  by pat_completeness auto
termination
proof (relation "measure length")
qed (auto dest: next_token_shorter)

datatype frame =
    FArr "json list"
  | FObj "(nat list \<times> json) list" "nat list option"

datatype mode =
    WantValue | WantValueOrEnd | WantKeyOrEnd | WantKey | WantColon | AfterValue
  | Finished json

fun fill :: "json \<Rightarrow> frame list \<Rightarrow> (mode \<times> frame list) option" where
  \<comment> \<open>a complete value goes into the innermost open array or object; a later member
      with the same key replaces the earlier one\<close>
  "fill v [] = Some (Finished v, [])"
| "fill v (FArr es # st) = Some (AfterValue, FArr (es @ [v]) # st)"
| "fill v (FObj ms (Some k) # st) = Some (AfterValue, FObj (AList.update k v ms) None # st)"
| "fill v (FObj ms None # st) = None"

definition close_array :: "frame list \<Rightarrow> (mode \<times> frame list) option" where
  "close_array st = (case st of FArr es # st' \<Rightarrow> fill (JArr es) st' | _ \<Rightarrow> None)"

definition close_object :: "frame list \<Rightarrow> (mode \<times> frame list) option" where
  "close_object st = (case st of FObj ms None # st' \<Rightarrow> fill (JObj ms) st' | _ \<Rightarrow> None)"

definition value_token :: "bool \<Rightarrow> frame list \<Rightarrow> token \<Rightarrow> (mode \<times> frame list) option" where
  "value_token may_close st t =
     (case t of
        Atom v \<Rightarrow> fill v st
      | LBrace \<Rightarrow> Some (WantKeyOrEnd, FObj [] None # st)
      | LBracket \<Rightarrow> Some (WantValueOrEnd, FArr [] # st)
      | RBracket \<Rightarrow> if may_close then close_array st else None
      | _ \<Rightarrow> None)"

definition key_token :: "bool \<Rightarrow> frame list \<Rightarrow> token \<Rightarrow> (mode \<times> frame list) option" where
  "key_token may_close st t =
     (case t of
        Atom (JStr k) \<Rightarrow>
          (case st of
             FObj ms None # st' \<Rightarrow> Some (WantColon, FObj ms (Some k) # st')
           | _ \<Rightarrow> None)
      | RBrace \<Rightarrow> if may_close then close_object st else None
      | _ \<Rightarrow> None)"

definition after_value :: "frame list \<Rightarrow> token \<Rightarrow> (mode \<times> frame list) option" where
  "after_value st t =
     (case t of
        Comma \<Rightarrow>
          (case st of
             FArr es # st' \<Rightarrow> Some (WantValue, st)
           | FObj ms None # st' \<Rightarrow> Some (WantKey, st)
           | _ \<Rightarrow> None)
      | RBracket \<Rightarrow> close_array st
      | RBrace \<Rightarrow> close_object st
      | _ \<Rightarrow> None)"

definition step :: "mode \<Rightarrow> frame list \<Rightarrow> token \<Rightarrow> (mode \<times> frame list) option" where
  "step m st t =
     (case m of
        WantValue \<Rightarrow> value_token False st t
      | WantValueOrEnd \<Rightarrow> value_token True st t
      | WantKeyOrEnd \<Rightarrow> key_token True st t
      | WantKey \<Rightarrow> key_token False st t
      | WantColon \<Rightarrow> (case t of Colon \<Rightarrow> Some (WantValue, st) | _ \<Rightarrow> None)
      | AfterValue \<Rightarrow> after_value st t
      | Finished v \<Rightarrow> None)"

fun run :: "mode \<Rightarrow> frame list \<Rightarrow> token list \<Rightarrow> (mode \<times> frame list) option" where
  "run m st [] = Some (m, st)"
| "run m st (t # ts) =
     (case step m st t of None \<Rightarrow> None | Some (m', st') \<Rightarrow> run m' st' ts)"

definition JSON_parse :: "string \<Rightarrow> json option" where
  "JSON_parse s =
     (case tokenize s of
        None \<Rightarrow> None
      | Some ts \<Rightarrow>
          (case run WantValue [] ts of
             Some (Finished v, []) \<Rightarrow> Some v
           | _ \<Rightarrow> None))"

section \<open>Values and objects\<close>

text \<open>
  The parser builds a plain object. Its own properties are kept as an association list
  in insertion order, updated in place (\<^const>\<open>AList.update\<close>), and its prototype as a
  separate field, \<^const>\<open>None\<close> for the initial \<^verbatim>\<open>Object.prototype\<close>. The one key whose
  assignment does not create an own property is \<^verbatim>\<open>__proto__\<close>: the inherited setter
  replaces the prototype when the value is an object or array and ignores every other
  value, and reading \<^verbatim>\<open>result['__proto__']\<close> gives the prototype.
\<close>

datatype yval =
    VStr string
  | VBool bool
  | VList "string list"
  | VObj jsobj
  | VJson json
and jsobj =
    Obj (own: "(string \<times> yval) list") (proto: "yval option")

datatype jstype = TUndefined | TBoolean | TNumber | TString | TObject

fun typeof_json :: "json \<Rightarrow> jstype" where
  "typeof_json JNull = TObject"
| "typeof_json (JBool b) = TBoolean"
| "typeof_json (JNum n) = TNumber"
| "typeof_json (JStr s) = TString"
| "typeof_json (JArr es) = TObject"
| "typeof_json (JObj ms) = TObject"

fun typeof :: "yval \<Rightarrow> jstype" where
  "typeof (VStr s) = TString"
| "typeof (VBool b) = TBoolean"
| "typeof (VList xs) = TObject"
| "typeof (VObj obj) = TObject"
| "typeof (VJson j) = typeof_json j"

fun isArray :: "yval \<Rightarrow> bool" where
  "isArray (VList xs) = True"
| "isArray (VJson (JArr es)) = True"
| "isArray v = False"

definition empty_obj :: jsobj where
  \<comment> \<open>\<^verbatim>\<open>const result = {}\<close>\<close>
  "empty_obj = Obj [] None"

fun set_prop :: "jsobj \<Rightarrow> string \<Rightarrow> yval \<Rightarrow> jsobj" where
  \<comment> \<open>\<^verbatim>\<open>result[key] = v\<close>. (The prototype setter also accepts \<^verbatim>\<open>null\<close>; the parser never
      assigns it, since JSON text that starts with a brace or a bracket is not \<^verbatim>\<open>null\<close>.)\<close>
  "set_prop (Obj props pr) key v =
     (if key = ''__proto__'' then
        (if typeof v = TObject then Obj props (Some v) else Obj props pr)
      else Obj (AList.update key v props) pr)"

datatype propread = Value yval | ObjectPrototype | Missing

fun get_prop :: "jsobj \<Rightarrow> string \<Rightarrow> propread" where
  \<comment> \<open>\<^verbatim>\<open>result[key]\<close>, for the own properties and \<^verbatim>\<open>__proto__\<close>. The parser reads a key
      only right after assigning it, so no other inherited property is ever read.\<close>
  "get_prop (Obj props pr) key =
     (if key = ''__proto__'' then
        (case pr of None \<Rightarrow> ObjectPrototype | Some p \<Rightarrow> Value p)
      else (case map_of props key of None \<Rightarrow> Missing | Some v \<Rightarrow> Value v))"

fun typeof_read :: "propread \<Rightarrow> jstype" where
  "typeof_read (Value v) = typeof v"
| "typeof_read ObjectPrototype = TObject"
| "typeof_read Missing = TUndefined"

fun isArray_read :: "propread \<Rightarrow> bool" where
  "isArray_read (Value v) = isArray v"
| "isArray_read x = False"

definition advances :: "propread \<Rightarrow> bool" where
  \<comment> \<open>whether the two tests that end the loop body increment \<^verbatim>\<open>i\<close>:
      \<^verbatim>\<open>if (!Array.isArray(x) && typeof x !== 'object') i++;
       else if (typeof x === 'string' || typeof x === 'boolean') i++;\<close>\<close>
  "advances x \<longleftrightarrow>
     (if \<not> isArray_read x \<and> typeof_read x \<noteq> TObject then True
      else if typeof_read x = TString \<or> typeof_read x = TBoolean then True
      else False)"

section \<open>The block parser\<close>

definition inline_value :: "string \<Rightarrow> yval" where
  \<comment> \<open>the value stored for a trimmed, non-empty value that does not open a child block:
      the branches of \<^verbatim>\<open>parseYamlBlock\<close> from \<^verbatim>\<open>value.startsWith('{')\<close> on, in order\<close>
  "inline_value v =
     (if starts_with ''{'' v then
        (case JSON_parse v of Some j \<Rightarrow> VJson j | None \<Rightarrow> VStr v)
      else if starts_with ''['' v then
        (case JSON_parse v of Some j \<Rightarrow> VJson j | None \<Rightarrow> VStr v)
      else if starts_with [dquote] v \<and> ends_with [dquote] v then VStr (slice 1 (- 1) v)
      else if starts_with [squote] v \<and> ends_with [squote] v then VStr (slice 1 (- 1) v)
      else if v = ''true'' then VBool True
      else if v = ''false'' then VBool False
      else VStr v)"

function collect_children :: "string list \<Rightarrow> int \<Rightarrow> nat \<Rightarrow> string list \<Rightarrow> string list \<times> nat" where
  \<comment> \<open>the inner loop: from line \<open>i\<close> on, blank lines are skipped and lines indented
      deeper than \<open>indent\<close> are collected, up to the first other line; returns the
      collected lines and the index reached\<close>
  "collect_children lines indent i childLines =
     (if i < length lines then
        (let childLine = lines ! i in
         if blank_line childLine then collect_children lines indent (i + 1) childLines
         else if search_nonspace childLine \<le> indent then (childLines, i)
         else collect_children lines indent (i + 1) (childLines @ [childLine]))
      else (childLines, i))"
  by pat_completeness auto
termination
  by (relation "measure (\<lambda>(lines, indent, i, childLines). length lines - i)") auto

declare collect_children.simps [simp del]

text \<open>
  The outer loop of \<^verbatim>\<open>parseYamlBlock\<close> may fail to advance its index, so it is given
  fuel: every iteration uses one unit, and a nested call gets what is left. \<^const>\<open>None\<close>
  means that the fuel ran out; the parser itself raises no exception.
\<close>

fun while_loop :: "nat \<Rightarrow> string list \<Rightarrow> nat \<Rightarrow> jsobj \<Rightarrow> jsobj option" where
  "while_loop 0 lines i result = None"
| "while_loop (Suc fuel) lines i result =
     (if \<not> i < length lines then Some result
      else
        let line = lines ! i in
        if blank_line line \<or> comment_line line then while_loop fuel lines (i + 1) result
        else
          let indent = search_nonspace line in
          (case kv_match line of
             None \<Rightarrow> while_loop fuel lines (i + 1) result
           | Some (key, rest) \<Rightarrow>
               let v = trim rest in
               (case
                  (if v = [] \<or> v = ''|'' \<or> v = ''>'' then
                     (case collect_children lines indent (i + 1) [] of
                        (childLines, j) \<Rightarrow>
                          if childLines \<noteq> [] \<and> starts_with ''- '' (trim (hd childLines)) then
                            Some (j, set_prop result key (VList (map strip_dash childLines)))
                          else
                            (case while_loop fuel (split_nl (join_nl childLines)) 0 empty_obj of
                               None \<Rightarrow> None
                             | Some sub \<Rightarrow> Some (j, set_prop result key (VObj sub))))
                   else Some (i, set_prop result key (inline_value v)))
                of
                  None \<Rightarrow> None
                | Some (j, result') \<Rightarrow>
                    while_loop fuel lines
                      (if advances (get_prop result' key) then j + 1 else j) result')))"

definition parseYamlBlock :: "nat \<Rightarrow> string \<Rightarrow> jsobj option" where
  "parseYamlBlock fuel text = while_loop fuel (split_nl text) 0 empty_obj"

section \<open>Extracting the frontmatter\<close>

definition closing_at :: "string \<Rightarrow> bool" where
  \<comment> \<open>the tail \<^verbatim>\<open>\r?\n---\<close> of the pattern matches at the start of \<open>s\<close>\<close>
  "closing_at s \<longleftrightarrow> starts_with (CR # LF # ''---'') s \<or> starts_with (LF # ''---'') s"

fun lazy_group :: "string \<Rightarrow> string option" where
  \<comment> \<open>the lazy group \<^verbatim>\<open>([\s\S]*?)\<close>: the shortest prefix after which the tail matches\<close>
  "lazy_group [] = None"
| "lazy_group (c # cs) =
     (if closing_at (c # cs) then Some [] else map_option ((#) c) (lazy_group cs))"

definition frontmatter_match :: "string \<Rightarrow> string option" where
  \<comment> \<open>group 1 of \<^verbatim>\<open>content.match(/^---\r?\n([\s\S]*?)\r?\n---/)\<close>\<close>
  "frontmatter_match content =
     (if starts_with (''---'' @ [CR, LF]) content then lazy_group (drop 5 content)
      else if starts_with (''---'' @ [LF]) content then lazy_group (drop 4 content)
      else None)"

datatype fm_result = Null | Mapping jsobj

definition parseFrontmatter :: "nat \<Rightarrow> string \<Rightarrow> fm_result option" where
  "parseFrontmatter fuel content =
     (case frontmatter_match content of
        None \<Rightarrow> Some Null
      | Some block \<Rightarrow> map_option Mapping (parseYamlBlock fuel block))"

section \<open>The delimiter structure in the words of the specification\<close>

text \<open>
  The specification speaks of a delimiter line, a line consisting of exactly three hyphens,
  at the start of the document and again at the end of the frontmatter. These notions are
  written down from its words, on the lines of the document (a CR before the line break
  counts as part of the line ending), to be compared with what the pattern of
  \<^verbatim>\<open>parseFrontmatter\<close> matches. \<open>spec_frontmatter_block\<close> is the text strictly between the
  opening delimiter line and the next delimiter line; \<open>delimited\<close> describes the pattern:
  three hyphens, a line break, the block, a line break, three hyphens, anything.
\<close>

definition delimiter_line :: "string \<Rightarrow> bool" where
  "delimiter_line l \<longleftrightarrow> l = ''---'' \<or> l = ''---'' @ [CR]"

definition begins_with_delimiter :: "string \<Rightarrow> bool" where
  "begins_with_delimiter content \<longleftrightarrow> delimiter_line (hd (split_nl content))"

definition has_closing_delimiter :: "string \<Rightarrow> bool" where
  "has_closing_delimiter content \<longleftrightarrow> list_ex delimiter_line (tl (split_nl content))"

definition spec_frontmatter_block :: "string \<Rightarrow> string option" where
  "spec_frontmatter_block content =
     (case split_nl content of
        [] \<Rightarrow> None
      | first # rest \<Rightarrow>
          if delimiter_line first \<and> list_ex delimiter_line rest
          then Some (join_nl (takeWhile (\<lambda>l. \<not> delimiter_line l) rest))
          else None)"

definition line_break :: "string \<Rightarrow> bool" where
  "line_break nl \<longleftrightarrow> nl = [LF] \<or> nl = [CR, LF]"

definition delimited :: "string \<Rightarrow> string \<Rightarrow> bool" where
  "delimited content block \<longleftrightarrow>
     (\<exists>nl nl' rest. line_break nl \<and> line_break nl' \<and>
        content = ''---'' @ nl @ block @ nl' @ ''---'' @ rest)"

section \<open>Dash items in the words of the specification\<close>

text \<open>
  The specification speaks of child lines that begin with a dash marker and of the item
  that remains when the marker and the white space around it are stripped. Written down
  from its words: a line is dash-marked when, without the white space around it, it begins
  with a dash; its item text is that line without the dash and without the white space
  around what remains.
\<close>

definition dash_marked :: "string \<Rightarrow> bool" where
  "dash_marked l \<longleftrightarrow> starts_with ''-'' (trim l)"

definition item_text :: "string \<Rightarrow> string" where
  "item_text l = trim (drop 1 (trim l))"

section \<open>Writing a mapping of strings back as text\<close>






section \<open>Well-formed mappings\<close>

text \<open>
  The data model of the specification: a value is a string, a boolean, a sequence of
  strings or a nested mapping, and the keys of a mapping are unique. The same holds of a
  prototype installed through the key \<^verbatim>\<open>__proto__\<close>, which is a sequence or a mapping.
  A parsed JSON value is not part of it: the loop that stores one never returns.
\<close>

fun wellformed_val :: "yval \<Rightarrow> bool" and wellformed :: "jsobj \<Rightarrow> bool" where
  "wellformed_val (VStr s) = True"
| "wellformed_val (VBool b) = True"
| "wellformed_val (VList xs) = True"
| "wellformed_val (VObj obj) = wellformed obj"
| "wellformed_val (VJson j) = False"
| "wellformed (Obj props pr) =
     (distinct (map fst props)
      \<and> (\<forall>e \<in> set props. wellformed_val (snd e))
      \<and> (case pr of None \<Rightarrow> True | Some p \<Rightarrow> typeof p = TObject \<and> wellformed_val p))"

section \<open>Lines on which the loop stays\<close>

text \<open>
  An entry line with an inline value keeps the index of the loop where it is when the
  value read back after the assignment is an object: its value is valid JSON, or its key
  is \<^verbatim>\<open>__proto__\<close>.
\<close>

definition stuck_line :: "string \<Rightarrow> bool" where
  "stuck_line l \<longleftrightarrow>
     \<not> blank_line l \<and> \<not> comment_line l
     \<and> (case kv_match l of
          None \<Rightarrow> False
        | Some (key, rest) \<Rightarrow>
            trim rest \<noteq> [] \<and> trim rest \<noteq> ''|'' \<and> trim rest \<noteq> ''>''
            \<and> (key = ''__proto__'' \<or> typeof (inline_value (trim rest)) = TObject))"

section \<open>Entry lines and the values they assign\<close>

text \<open>
  The entry lines of a block are the lines on which the loop of \<^verbatim>\<open>parseYamlBlock\<close> makes an
  assignment: lines that are neither blank nor comments, that match the key pattern, and
  that are not among the child lines of an earlier entry line. \<open>entry_indices lines i\<close>
  lists their indices from line \<open>i\<close> on, in the order of the text; \<open>last_entry lines i k\<close>
  is the last of them whose key is \<open>k\<close>. \<open>entry_value nested lines n v\<close> says that \<open>v\<close> is
  the value that entry line \<open>n\<close> assigns: its inline value, the list of its dash items, or
  a mapping that is related by \<open>nested\<close> to the lines of its child block.
  \<open>last_write_wins depth lines r\<close> reads a mapping against the lines of its block: every
  key without an entry line is absent, every other key has the value of its last entry
  line, and the same holds inside the nested mappings, down to the given depth.
  \<open>returned lines r\<close> says that the loop, started on these lines with the empty mapping,
  returns \<open>r\<close> after some number of iterations.
\<close>

lemma collect_children_facts:
  "collect_children lines indent i acc = (cl, j) \<Longrightarrow>
     i \<le> j \<and> set cl \<subseteq> set acc \<union> set lines \<and> length cl + i \<le> length acc + j"
proof (induction lines indent i acc rule: collect_children.induct)
  case (1 lines indent i childLines)
  show ?case
  proof (cases "i < length lines")
    case False
    with "1.prems" show ?thesis
      by (subst (asm) collect_children.simps) auto
  next
    case lt: True
    show ?thesis
    proof (cases "blank_line (lines ! i)")
      case True
      with lt "1.prems" have "collect_children lines indent (i + 1) childLines = (cl, j)"
        by (subst (asm) collect_children.simps) (simp add: Let_def)
      from "1.IH"(1) [OF lt refl True this] show ?thesis by auto
    next
      case nb: False
      show ?thesis
      proof (cases "search_nonspace (lines ! i) \<le> indent")
        case True
        with lt nb "1.prems" show ?thesis
          by (subst (asm) collect_children.simps) (auto simp: Let_def)
      next
        case False
        with lt nb "1.prems"
        have "collect_children lines indent (i + 1) (childLines @ [lines ! i]) = (cl, j)"
          by (subst (asm) collect_children.simps) (simp add: Let_def)
        from "1.IH"(2) [OF lt refl nb False this] lt show ?thesis by auto
      qed
    qed
  qed
qed

definition entry_of :: "string \<Rightarrow> (string \<times> string) option" where
  "entry_of line =
     (if blank_line line \<or> comment_line line then None
      else (case kv_match line of None \<Rightarrow> None | Some (key, rest) \<Rightarrow> Some (key, trim rest)))"

definition opens_block :: "string \<Rightarrow> bool" where
  "opens_block v \<longleftrightarrow> v = [] \<or> v = ''|'' \<or> v = ''>''"

lemma collect_children_advances: "i \<le> snd (collect_children lines indent i acc)"
  using collect_children_facts [of lines indent i acc]
  by (cases "collect_children lines indent i acc") simp

function entry_indices :: "string list \<Rightarrow> nat \<Rightarrow> nat list" where
  "entry_indices lines i =
     (if i < length lines then
        (case entry_of (lines ! i) of
           None \<Rightarrow> entry_indices lines (i + 1)
         | Some (key, v) \<Rightarrow>
             i # entry_indices lines
                   (if opens_block v
                    then snd (collect_children lines (search_nonspace (lines ! i)) (i + 1) [])
                    else i + 1))
      else [])"
  by pat_completeness auto
termination
  apply (relation "measure (\<lambda>(lines, i). length lines - i)")
    apply auto
  subgoal for lines i a b
    using collect_children_advances [of "Suc i" lines "search_nonspace (lines ! i)" "[]"]
    by simp
  done

declare entry_indices.simps [simp del]

definition key_at :: "string list \<Rightarrow> nat \<Rightarrow> string option" where
  "key_at lines n = map_option fst (entry_of (lines ! n))"

definition last_entry :: "string list \<Rightarrow> nat \<Rightarrow> string \<Rightarrow> nat option" where
  "last_entry lines i k =
     (let ns = filter (\<lambda>n. key_at lines n = Some k) (entry_indices lines i)
      in if ns = [] then None else Some (last ns))"

definition entry_value :: "(string list \<Rightarrow> jsobj \<Rightarrow> bool) \<Rightarrow> string list \<Rightarrow> nat \<Rightarrow> yval \<Rightarrow> bool" where
  "entry_value nested lines n v \<longleftrightarrow>
     (case entry_of (lines ! n) of
        None \<Rightarrow> False
      | Some (key, x) \<Rightarrow>
          if opens_block x then
            (case collect_children lines (search_nonspace (lines ! n)) (n + 1) [] of
               (childLines, j) \<Rightarrow>
                 if childLines \<noteq> [] \<and> starts_with ''- '' (trim (hd childLines))
                 then v = VList (map strip_dash childLines)
                 else (\<exists>sub. v = VObj sub \<and> nested (split_nl (join_nl childLines)) sub))
          else v = inline_value x)"

primrec last_write_wins :: "nat \<Rightarrow> string list \<Rightarrow> jsobj \<Rightarrow> bool" where
  "last_write_wins 0 lines r \<longleftrightarrow> True"
| "last_write_wins (Suc depth) lines r \<longleftrightarrow>
     (\<forall>k. case last_entry lines 0 k of
             None \<Rightarrow> get_prop r k = get_prop empty_obj k
           | Some n \<Rightarrow> (\<exists>v. get_prop r k = Value v \<and> entry_value (last_write_wins depth) lines n v))"

definition returned :: "string list \<Rightarrow> jsobj \<Rightarrow> bool" where
  "returned lines r \<longleftrightarrow> (\<exists>fuel. while_loop fuel lines 0 empty_obj = Some r)"

section \<open>One iteration of the loop\<close>

declare while_loop.simps [simp del]

lemma get_set_prop:
  "get_prop (set_prop r k v) k =
     (if k = ''__proto__'' \<and> typeof v \<noteq> TObject then get_prop r k else Value v)"
  by (cases r) (simp add: AList.update_conv')

lemma advances_object: "typeof v = TObject \<Longrightarrow> \<not> advances (Value v)"
  by (simp add: advances_def)

lemma while_loop_end:
  "\<not> i < length lines \<Longrightarrow> while_loop (Suc fuel) lines i result = Some result"
  by (simp add: while_loop.simps)

lemma while_loop_skip:
  assumes "i < length lines"
    and "blank_line (lines ! i) \<or> comment_line (lines ! i) \<or> kv_match (lines ! i) = None"
  shows "while_loop (Suc fuel) lines i result = while_loop fuel lines (i + 1) result"
  using assms by (auto simp: while_loop.simps Let_def)

lemma while_loop_inline:
  assumes "i < length lines"
    and "\<not> blank_line (lines ! i)" "\<not> comment_line (lines ! i)"
    and "kv_match (lines ! i) = Some (key, rest)"
    and "trim rest \<noteq> []" "trim rest \<noteq> ''|''" "trim rest \<noteq> ''>''"
  shows "while_loop (Suc fuel) lines i result =
     while_loop fuel lines
       (if advances (get_prop (set_prop result key (inline_value (trim rest))) key)
        then i + 1 else i)
       (set_prop result key (inline_value (trim rest)))"
  using assms by (simp add: while_loop.simps Let_def)

lemma while_loop_block:
  assumes "i < length lines"
    and "\<not> blank_line (lines ! i)" "\<not> comment_line (lines ! i)"
    and "kv_match (lines ! i) = Some (key, rest)"
    and "trim rest = [] \<or> trim rest = ''|'' \<or> trim rest = ''>''"
    and "collect_children lines (search_nonspace (lines ! i)) (i + 1) [] = (childLines, j)"
  shows "while_loop (Suc fuel) lines i result =
     (if childLines \<noteq> [] \<and> starts_with ''- '' (trim (hd childLines)) then
        while_loop fuel lines j (set_prop result key (VList (map strip_dash childLines)))
      else
        (case while_loop fuel (split_nl (join_nl childLines)) 0 empty_obj of
           None \<Rightarrow> None
         | Some sub \<Rightarrow> while_loop fuel lines j (set_prop result key (VObj sub))))"
  using assms
  by (auto simp: while_loop.simps Let_def get_set_prop advances_def split: option.splits)

lemma collect_children_span:
  assumes "i \<le> j" "j \<le> length lines"
    and "\<forall>k. i \<le> k \<and> k < j \<longrightarrow>
           blank_line (lines ! k) \<or> indent < search_nonspace (lines ! k)"
    and "j < length lines \<longrightarrow>
           \<not> blank_line (lines ! j) \<and> search_nonspace (lines ! j) \<le> indent"
  shows "collect_children lines indent i acc =
     (acc @ filter (\<lambda>l. \<not> blank_line l) (take (j - i) (drop i lines)), j)"
  using assms
proof (induction "j - i" arbitrary: i acc)
  case 0
  then have ij: "i = j" by simp
  show ?case
  proof (cases "j < length lines")
    case True
    with "0.prems"(4) ij show ?thesis
      by (subst collect_children.simps) (simp add: Let_def)
  next
    case False
    with ij show ?thesis
      by (subst collect_children.simps) simp
  qed
next
  case (Suc n)
  then have lt: "i < j" "i < length lines" by simp_all
  have step: "take (j - i) (drop i lines) = lines ! i # take (j - Suc i) (drop (Suc i) lines)"
    using lt by (metis Cons_nth_drop_Suc Suc_diff_Suc take_Suc_Cons)
  have IH: "\<And>acc'. collect_children lines indent (Suc i) acc' =
     (acc' @ filter (\<lambda>l. \<not> blank_line l) (take (j - Suc i) (drop (Suc i) lines)), j)"
    using Suc.hyps(1) [of "Suc i"] Suc.hyps(2) Suc.prems lt by simp
  from Suc.prems(3) lt have "blank_line (lines ! i) \<or> indent < search_nonspace (lines ! i)"
    by simp
  then show ?case
    using lt IH by (subst collect_children.simps) (auto simp: Let_def step)
qed

text \<open>
  An entry whose stored value is an object or an array leaves the index where it is. For a
  child block the inner loop has moved the index already; for an inline JSON value nothing
  has, and the loop meets the same line again, whatever the fuel.
\<close>

lemma while_loop_stuck:
  assumes "i < length lines"
    and "\<not> blank_line (lines ! i)" "\<not> comment_line (lines ! i)"
    and "kv_match (lines ! i) = Some (key, rest)"
    and "trim rest \<noteq> []" "trim rest \<noteq> ''|''" "trim rest \<noteq> ''>''"
    and "typeof (inline_value (trim rest)) = TObject"
  shows "while_loop fuel lines i result = None"
proof (induction fuel arbitrary: result)
  case 0
  show ?case by (simp add: while_loop.simps)
next
  case (Suc fuel)
  have "\<not> advances (get_prop (set_prop result key (inline_value (trim rest))) key)"
    using assms(8) by (simp add: get_set_prop advances_object)
  then show ?case
    using while_loop_inline [OF assms(1-7), of fuel result] Suc.IH by simp
qed

lemma advances_primitive:
  "advances (Value (VStr s))" "advances (Value (VBool b))"
  by (simp_all add: advances_def)

lemma while_loop_scalar:
  assumes "i < length lines"
    and "\<not> blank_line (lines ! i)" "\<not> comment_line (lines ! i)"
    and "kv_match (lines ! i) = Some (key, rest)"
    and "trim rest \<noteq> []" "trim rest \<noteq> ''|''" "trim rest \<noteq> ''>''"
    and "key \<noteq> ''__proto__''"
    and "inline_value (trim rest) = VStr s \<or> inline_value (trim rest) = VBool b"
  shows "while_loop (Suc fuel) lines i result =
     while_loop fuel lines (i + 1) (set_prop result key (inline_value (trim rest)))"
  using assms(8,9) while_loop_inline [OF assms(1-7), of fuel result]
  by (auto simp: get_set_prop advances_primitive)

lemma inline_value_true: "inline_value ''true'' = VBool True"
  by code_simp

lemma inline_value_false: "inline_value ''false'' = VBool False"
  by code_simp

lemma inline_value_bool:
  "inline_value v = VBool b \<Longrightarrow> v = (if b then ''true'' else ''false'')"
  by (auto simp: inline_value_def split: if_splits option.splits)

lemma hd_dropWhile_not: "dropWhile P xs \<noteq> [] \<Longrightarrow> \<not> P (hd (dropWhile P xs))"
  by (induction xs) auto

lemma trim_last: "trim s \<noteq> [] \<Longrightarrow> \<not> is_space (last (trim s))"
  unfolding trim_def by (simp add: last_rev hd_dropWhile_not)


lemma rtrim_id: "xs = [] \<or> \<not> is_space (last xs) \<Longrightarrow> rev (dropWhile is_space (rev xs)) = xs"
  by (cases xs rule: rev_cases) auto

lemma trim_id: "xs = [] \<or> (\<not> is_space (hd xs) \<and> \<not> is_space (last xs)) \<Longrightarrow> trim xs = xs"
proof -
  assume a: "xs = [] \<or> (\<not> is_space (hd xs) \<and> \<not> is_space (last xs))"
  then have "dropWhile is_space xs = xs" by (cases xs) auto
  moreover from a have "rev (dropWhile is_space (rev xs)) = xs"
    by (intro rtrim_id) auto
  ultimately show ?thesis by (simp only: trim_def)
qed

section \<open>The shape of a JSON.parse result\<close>

text \<open>
  Text that starts with a brace or a bracket parses, if at all, to an object or an array:
  the automaton reaches the empty stack only by closing the outermost container.
\<close>

lemma fill_empty:
  "fill v st = Some (m, []) \<Longrightarrow> st = [] \<and> m = Finished v"
  by (induction v st rule: fill.induct) auto

lemma step_empties:
  assumes "step m st t = Some (m', [])" "st \<noteq> []"
  shows "\<exists>j. m' = Finished j \<and> typeof_json j = TObject"
  using assms
  by (auto simp: step_def value_token_def key_token_def after_value_def close_array_def
        close_object_def
      split: mode.splits token.splits json.splits list.splits frame.splits option.splits
        if_splits
      dest!: fill_empty)

lemma run_structured:
  assumes "run m st ts = Some (Finished j, [])" "st \<noteq> []"
  shows "typeof_json j = TObject"
  using assms
proof (induction ts arbitrary: m st)
  case Nil
  then show ?case by simp
next
  case (Cons t ts)
  then obtain m' st' where s: "step m st t = Some (m', st')"
    and r: "run m' st' ts = Some (Finished j, [])"
    by (auto split: option.splits)
  show ?case
  proof (cases "st' = []")
    case True
    with s Cons.prems(2) obtain j' where j': "m' = Finished j'" "typeof_json j' = TObject"
      using step_empties by blast
    with r True show ?thesis
      by (cases ts) (auto simp: step_def)
  next
    case False
    with Cons.IH r show ?thesis by blast
  qed
qed

lemma tokenize_open:
  "tokenize (CHR ''{'' # cs) = cons_token LBrace (tokenize cs)"
  "tokenize (CHR ''['' # cs) = cons_token LBracket (tokenize cs)"
  by (simp_all add: json_ws_def next_token_def)

declare tokenize.simps [simp del]

lemma JSON_parse_structured:
  assumes "JSON_parse v = Some j" "starts_with ''{'' v \<or> starts_with ''['' v"
  shows "typeof_json j = TObject"
proof -
  from assms(2) obtain c cs where v: "v = c # cs" and c: "c = CHR ''{'' \<or> c = CHR ''[''"
    by (cases v) (auto simp: starts_with_def)
  from assms(1) obtain ts where ts: "tokenize v = Some ts"
    and r: "run WantValue [] ts = Some (Finished j, [])"
    by (auto simp: JSON_parse_def split: option.splits mode.splits list.splits)
  from c show ?thesis
  proof
    assume "c = CHR ''{''"
    with v ts obtain ts' where "ts = LBrace # ts'"
      by (auto simp: tokenize_open cons_token_def)
    with r have "run WantKeyOrEnd [FObj [] None] ts' = Some (Finished j, [])"
      by (simp add: step_def value_token_def)
    then show ?thesis by (rule run_structured) simp
  next
    assume "c = CHR ''[''"
    with v ts obtain ts' where "ts = LBracket # ts'"
      by (auto simp: tokenize_open cons_token_def)
    with r have "run WantValueOrEnd [FArr []] ts' = Some (Finished j, [])"
      by (simp add: step_def value_token_def)
    then show ?thesis by (rule run_structured) simp
  qed
qed

lemma inline_value_json:
  assumes "JSON_parse v = Some j" "starts_with ''{'' v \<or> starts_with ''['' v"
  shows "inline_value v = VJson j" "typeof (inline_value v) = TObject"
  using assms JSON_parse_structured [OF assms] by (auto simp: inline_value_def)

section \<open>A call that does not return\<close>

lemma inline_json_line:
  \<open>kv_match ''obj: {"a": 1}'' = Some (''obj'', ''{"a": 1}'')\<close>
  \<open>trim ''{"a": 1}'' = ''{"a": 1}''\<close>
  \<open>inline_value ''{"a": 1}'' = VJson (JObj [([97], JNum ''1'')])\<close>
  \<open>\<not> blank_line ''obj: {"a": 1}''\<close>
  \<open>\<not> comment_line ''obj: {"a": 1}''\<close>
  by code_simp+

lemma inline_json_document:
  \<open>frontmatter_match (join_nl [''---'', ''obj: {"a": 1}'', ''---'', '''']) = Some ''obj: {"a": 1}''\<close>
  \<open>split_nl ''obj: {"a": 1}'' = [''obj: {"a": 1}'']\<close>
  by code_simp+

text \<open>
  Claim C1 says that \<^verbatim>\<open>parseFrontmatter\<close> terminates on every input text. The code does
  not: on the document whose frontmatter is the single line \<^verbatim>\<open>obj: {"a": 1}\<close> the loop of
  \<^verbatim>\<open>parseYamlBlock\<close> stores the parsed object and never increments its index, so no amount
  of fuel lets the call return.
\<close>

theorem parseFrontmatter_inline_json_never_returns:
  \<open>parseFrontmatter fuel (join_nl [''---'', ''obj: {"a": 1}'', ''---'', '''']) = None\<close>
proof -
  have stuck: \<open>while_loop fuel [''obj: {"a": 1}''] 0 empty_obj = None\<close>
    by (rule while_loop_stuck [where key = "''obj''" and rest = \<open>''{"a": 1}''\<close>])
       (simp_all add: inline_json_line)
  have \<open>parseFrontmatter fuel (join_nl [''---'', ''obj: {"a": 1}'', ''---'', ''''])
      = map_option Mapping (parseYamlBlock fuel ''obj: {"a": 1}'')\<close>
    by (simp only: parseFrontmatter_def inline_json_document(1) option.case)
  also have \<open>\<dots> = map_option Mapping (while_loop fuel [''obj: {"a": 1}''] 0 empty_obj)\<close>
    by (simp only: parseYamlBlock_def inline_json_document(2))
  also have "\<dots> = None"
    by (simp only: stuck option.map)
  finally show ?thesis .
qed

section \<open>Scalar values\<close>

lemma flag_lines:
  "split_nl ''flag: true'' = [''flag: true'']"
  "kv_match ''flag: true'' = Some (''flag'', ''true'')"
  "\<not> blank_line ''flag: true''" "\<not> comment_line ''flag: true''"
  "trim ''true'' = ''true''"
  by code_simp+

text \<open>
  Claim C7: a value equal to the lowercase literal \<^verbatim>\<open>true\<close> or \<^verbatim>\<open>false\<close> is stored as the
  corresponding boolean and the loop moves on to the next line; no other inline value is
  stored as a boolean, so \<^verbatim>\<open>flag: True\<close> keeps the string. (The key \<^verbatim>\<open>__proto__\<close> is set
  apart: a primitive assigned to it is ignored by the prototype setter.)
\<close>

theorem true_false_coerced_to_boolean:
  assumes "i < length lines"
    and "\<not> blank_line (lines ! i)" "\<not> comment_line (lines ! i)"
    and "kv_match (lines ! i) = Some (key, rest)"
    and "key \<noteq> ''__proto__''"
  shows "(trim rest = ''true'' \<longrightarrow>
            while_loop (Suc fuel) lines i result =
              while_loop fuel lines (i + 1) (set_prop result key (VBool True)))
       \<and> (trim rest = ''false'' \<longrightarrow>
            while_loop (Suc fuel) lines i result =
              while_loop fuel lines (i + 1) (set_prop result key (VBool False)))
       \<and> (\<forall>b. inline_value (trim rest) = VBool b \<longrightarrow>
            trim rest = (if b then ''true'' else ''false''))"
proof (intro conjI impI allI)
  assume t: "trim rest = ''true''"
  show "while_loop (Suc fuel) lines i result =
      while_loop fuel lines (i + 1) (set_prop result key (VBool True))"
    using while_loop_scalar [OF assms(1-4) _ _ _ assms(5), of _ True fuel result]
    by (simp add: t inline_value_true)
next
  assume f: "trim rest = ''false''"
  show "while_loop (Suc fuel) lines i result =
      while_loop fuel lines (i + 1) (set_prop result key (VBool False))"
    using while_loop_scalar [OF assms(1-4) _ _ _ assms(5), of _ False fuel result]
    by (simp add: f inline_value_false)
next
  fix b
  assume "inline_value (trim rest) = VBool b"
  then show "trim rest = (if b then ''true'' else ''false'')"
    by (rule inline_value_bool)
qed

lemma off_lines:
  "split_nl ''off: false'' = [''off: false'']"
  "kv_match ''off: false'' = Some (''off'', ''false'')"
  "\<not> blank_line ''off: false''" "\<not> comment_line ''off: false''"
  "trim ''false'' = ''false''" "trim ''True'' = ''True''"
  "kv_match ''flag: True'' = Some (''flag'', ''True'')"
  "\<not> blank_line ''flag: True''" "\<not> comment_line ''flag: True''"
  "parseYamlBlock 2 ''flag: True'' = Some (Obj [(''flag'', VStr ''True'')] None)"
  by code_simp+

theorem true_false_coerced_to_boolean_witness:
  "parseYamlBlock 2 ''flag: true'' = Some (Obj [(''flag'', VBool True)] None)
   \<and> parseYamlBlock 2 ''off: false'' = Some (Obj [(''off'', VBool False)] None)
   \<and> parseYamlBlock 2 ''flag: True'' = Some (Obj [(''flag'', VStr ''True'')] None)
   \<and> inline_value ''True'' \<noteq> VBool True \<and> inline_value ''True'' \<noteq> VBool False"
proof (intro conjI)
  have "while_loop (Suc (Suc 0)) [''flag: true''] 0 empty_obj =
      while_loop (Suc 0) [''flag: true''] (0 + 1) (set_prop empty_obj ''flag'' (VBool True))"
    using true_false_coerced_to_boolean
      [of 0 "[''flag: true'']" "''flag''" "''true''" "Suc 0" empty_obj]
    by (simp add: flag_lines)
  also have "\<dots> = Some (Obj [(''flag'', VBool True)] None)"
    by (simp add: while_loop_end empty_obj_def)
  finally show "parseYamlBlock 2 ''flag: true'' = Some (Obj [(''flag'', VBool True)] None)"
    by (simp only: parseYamlBlock_def flag_lines(1) numeral_2_eq_2)
next
  have "while_loop (Suc (Suc 0)) [''off: false''] 0 empty_obj =
      while_loop (Suc 0) [''off: false''] (0 + 1) (set_prop empty_obj ''off'' (VBool False))"
    using true_false_coerced_to_boolean
      [of 0 "[''off: false'']" "''off''" "''false''" "Suc 0" empty_obj]
    by (simp add: off_lines)
  also have "\<dots> = Some (Obj [(''off'', VBool False)] None)"
    by (simp add: while_loop_end empty_obj_def)
  finally show "parseYamlBlock 2 ''off: false'' = Some (Obj [(''off'', VBool False)] None)"
    by (simp only: parseYamlBlock_def off_lines(1) numeral_2_eq_2)
next
  show "parseYamlBlock 2 ''flag: True'' = Some (Obj [(''flag'', VStr ''True'')] None)"
    by (rule off_lines)
next
  note only = true_false_coerced_to_boolean
    [of 0 "[''flag: True'']" "''flag''" "''True''" 0 empty_obj, THEN conjunct2, THEN conjunct2]
  show "inline_value ''True'' \<noteq> VBool True"
    using only by (auto simp: off_lines)
  show "inline_value ''True'' \<noteq> VBool False"
    using only by (auto simp: off_lines)
qed

lemma lone_quote_value:
  "inline_value [dquote] = VStr []" "inline_value [squote] = VStr []"
  by code_simp+

lemma lone_quote_lines:
  \<open>split_nl ''k: "'' = [''k: "'']\<close>
  \<open>kv_match ''k: "'' = Some (''k'', [dquote])\<close>
  \<open>\<not> blank_line ''k: "''\<close> \<open>\<not> comment_line ''k: "''\<close>
  \<open>trim [dquote] = [dquote]\<close>
  by code_simp+

text \<open>
  Claim C10: a value that is one quote character alone, double or single, passes both the
  starts-with and the ends-with test and \<^verbatim>\<open>slice(1, -1)\<close> leaves nothing of it: the empty
  string is stored, not the one-character string.
\<close>

theorem lone_quote_parses_to_empty_string:
  assumes "i < length lines"
    and "\<not> blank_line (lines ! i)" "\<not> comment_line (lines ! i)"
    and "kv_match (lines ! i) = Some (key, rest)"
    and "key \<noteq> ''__proto__''"
    and "trim rest = [dquote] \<or> trim rest = [squote]"
  shows "starts_with (trim rest) (trim rest) \<and> ends_with (trim rest) (trim rest)
       \<and> inline_value (trim rest) = VStr []
       \<and> while_loop (Suc fuel) lines i result =
           while_loop fuel lines (i + 1) (set_prop result key (VStr []))"
proof -
  from assms(6) have v: "inline_value (trim rest) = VStr []"
    by (auto simp: lone_quote_value)
  from assms(6) have ne: "trim rest \<noteq> []" "trim rest \<noteq> ''|''" "trim rest \<noteq> ''>''"
    by (auto simp: dquote_def squote_def)
  have "while_loop (Suc fuel) lines i result =
      while_loop fuel lines (i + 1) (set_prop result key (inline_value (trim rest)))"
    using while_loop_scalar [OF assms(1-4) ne assms(5), of "[]" _ fuel result] v by simp
  with v show ?thesis by (simp add: starts_with_def ends_with_def)
qed

theorem lone_quote_parses_to_empty_string_witness:
  \<open>parseYamlBlock 2 ''k: "'' = Some (Obj [(''k'', VStr [])] None)\<close>
proof -
  have \<open>while_loop (Suc (Suc 0)) [''k: "''] 0 empty_obj =
      while_loop (Suc 0) [''k: "''] (0 + 1) (set_prop empty_obj ''k'' (VStr []))\<close>
    using lone_quote_parses_to_empty_string
      [of 0 \<open>[''k: "'']\<close> "''k''" "[dquote]" "Suc 0" empty_obj]
    by (simp add: lone_quote_lines)
  also have "\<dots> = Some (Obj [(''k'', VStr [])] None)"
    by (simp add: while_loop_end empty_obj_def)
  finally show ?thesis
    by (simp only: parseYamlBlock_def lone_quote_lines(1) numeral_2_eq_2)
qed

section \<open>Child blocks\<close>

lemma while_loop_blank_text: "while_loop (Suc (Suc fuel)) [[]] 0 empty_obj = Some empty_obj"
proof -
  have "while_loop (Suc (Suc fuel)) [[]] 0 empty_obj = while_loop (Suc fuel) [[]] (0 + 1) empty_obj"
    by (rule while_loop_skip) (simp_all add: blank_line_def)
  then show ?thesis by (simp add: while_loop_end)
qed

lemma empty_block_lines:
  "split_nl (join_nl [''a:'', ''b: 1'']) = [''a:'', ''b: 1'']"
  "kv_match ''a:'' = Some (''a'', [])" "trim [] = []"
  "\<not> blank_line ''a:''" "\<not> comment_line ''a:''"
  "\<not> blank_line ''b: 1''" "search_nonspace ''b: 1'' \<le> search_nonspace ''a:''"
  by code_simp+

lemma empty_block_rest:
  "while_loop 3 [''a:'', ''b: 1''] 1 (set_prop empty_obj ''a'' (VObj empty_obj)) =
     Some (Obj [(''a'', VObj (Obj [] None)), (''b'', VStr ''1'')] None)"
  by code_simp

text \<open>
  Claim C9: a key with an empty value that no deeper-indented line follows (only blank
  lines up to index \<open>j\<close>, which is the end of the block or a line indented no deeper than
  the key) gets the empty mapping as its value, and the loop goes on at line \<open>j\<close>.
\<close>

theorem empty_value_without_children:
  assumes "i < length lines"
    and "\<not> blank_line (lines ! i)" "\<not> comment_line (lines ! i)"
    and "kv_match (lines ! i) = Some (key, rest)"
    and "trim rest = []"
    and "i < j" "j \<le> length lines"
    and "\<forall>k. i < k \<and> k < j \<longrightarrow> blank_line (lines ! k)"
    and "j < length lines \<longrightarrow>
           \<not> blank_line (lines ! j) \<and> search_nonspace (lines ! j) \<le> search_nonspace (lines ! i)"
  shows "while_loop (Suc (Suc (Suc fuel))) lines i result =
     while_loop (Suc (Suc fuel)) lines j (set_prop result key (VObj empty_obj))"
proof -
  have "filter (\<lambda>l. \<not> blank_line l) (take (j - (i + 1)) (drop (i + 1) lines)) = []"
    using assms(6-8) by (auto simp: filter_empty_conv in_set_conv_nth)
  then have c: "collect_children lines (search_nonspace (lines ! i)) (i + 1) [] = ([], j)"
    using collect_children_span
      [of "i + 1" j lines "search_nonspace (lines ! i)" "[]"] assms(6-9)
    by simp
  show ?thesis
    using while_loop_block [OF assms(1-4) _ c, of "Suc (Suc fuel)" result] assms(5)
    by (simp add: while_loop_blank_text)
qed

theorem empty_value_without_children_witness:
  "parseYamlBlock 4 (join_nl [''a:'', ''b: 1'']) =
     Some (Obj [(''a'', VObj (Obj [] None)), (''b'', VStr ''1'')] None)"
proof -
  have "while_loop (Suc (Suc (Suc 1))) [''a:'', ''b: 1''] 0 empty_obj =
      while_loop (Suc (Suc 1)) [''a:'', ''b: 1''] 1 (set_prop empty_obj ''a'' (VObj empty_obj))"
    by (rule empty_value_without_children [where rest = "[]"])
       (auto simp: empty_block_lines)
  also have "\<dots> = Some (Obj [(''a'', VObj (Obj [] None)), (''b'', VStr ''1'')] None)"
    using empty_block_rest by (simp add: eval_nat_numeral)
  finally show ?thesis
    by (simp only: parseYamlBlock_def empty_block_lines(1)) (simp add: eval_nat_numeral)
qed

lemma items_lines:
  "split_nl (join_nl [''items:'', ''  - a'', ''  - b'', '''']) =
     [''items:'', ''  - a'', ''  - b'', '''']"
  "kv_match ''items:'' = Some (''items'', [])"
  "\<not> blank_line ''items:''" "\<not> comment_line ''items:''"
  "\<not> blank_line ''  - a''" "\<not> blank_line ''  - b''" "blank_line []"
  "search_nonspace ''items:'' < search_nonspace ''  - a''"
  "search_nonspace ''items:'' < search_nonspace ''  - b''"
  "starts_with ''- '' (trim ''  - a'')" "starts_with ''- '' (trim ''  - b'')"
  "trim (drop 2 (trim ''  - a'')) = ''a''" "trim (drop 2 (trim ''  - b'')) = ''b''"
  "trim [] = []"
  by code_simp+

lemma strip_dash_item_text:
  assumes "dash_marked c"
  shows "strip_dash c = item_text c"
proof -
  from assms obtain r where t: "trim c = CHR ''-'' # r"
    by (cases "trim c") (auto simp: starts_with_def dash_marked_def)
  let ?d = "dropWhile is_space r"
  have sd: "strip_dash c = ?d"
    by (simp add: strip_dash_def t)
  have "?d = [] \<or> \<not> is_space (last ?d)"
  proof (cases "?d = []")
    case False
    have "r = takeWhile is_space r @ ?d" by simp
    then have "last r = last ?d" using False by (metis last_appendR)
    moreover have "r \<noteq> []" using False by auto
    ultimately have "last (trim c) = last ?d" by (simp add: t)
    with trim_last [of c] t show ?thesis by simp
  qed simp
  then have "trim r = ?d" by (simp add: trim_def rtrim_id)
  with sd t show ?thesis by (simp add: item_text_def)
qed

lemma empty_item_lines:
  "collect_children [''items:'', ''  - '', ''  - b''] 0 1 [] = ([''  - '', ''  - b''], 3)"
  "starts_with ''- '' (dropWhile is_space ''  - '')"
  "starts_with ''- '' (dropWhile is_space ''  - b'')"
  "dash_marked ''  - ''" "dash_marked ''  - b''"
  "map item_text [''  - '', ''  - b''] = ['''', ''b'']"
  "parseYamlBlock 5 (join_nl [''items:'', ''  - '', ''  - b'']) =
     Some (Obj [(''items'', VObj (Obj [] None))] None)"
  "dash_marked ''  -a''" "dash_marked ''  -b''"
  "map item_text [''  -a'', ''  -b''] = [''a'', ''b'']"
  "parseYamlBlock 5 (join_nl [''items:'', ''  -a'', ''  -b'']) =
     Some (Obj [(''items'', VObj (Obj [] None))] None)"
  "dash_marked (''  -'' @ CHR 0x09 # ''a'')"
  "item_text (''  -'' @ CHR 0x09 # ''a'') = ''a''"
  "parseYamlBlock 5 (join_nl [''items:'', ''  -'' @ CHR 0x09 # ''a'', ''  - b'']) =
     Some (Obj [(''items'', VObj (Obj [] None))] None)"
  by code_simp+

text \<open>
  Claim C6 says that a key with an empty value whose deeper-indented lines all begin with
  a dash marker gets the sequence of those lines without their markers. The parser decides
  by the first child line alone, and after trimming it: the line has to begin with a dash
  and a space once the white space around it is gone. A first item that is empty (its
  dash and space are followed by nothing), one that follows its dash directly, and one
  that follows it after a TAB do not pass that test, and the children are read as a nested
  mapping, here an empty one.
\<close>

theorem dash_children_counterexample:
  "collect_children [''items:'', ''  - '', ''  - b''] 0 1 [] = ([''  - '', ''  - b''], 3)
   \<and> starts_with ''- '' (dropWhile is_space ''  - '')
   \<and> starts_with ''- '' (dropWhile is_space ''  - b'')
   \<and> dash_marked ''  - '' \<and> dash_marked ''  - b''
   \<and> map item_text [''  - '', ''  - b''] = ['''', ''b'']
   \<and> parseYamlBlock 5 (join_nl [''items:'', ''  - '', ''  - b'']) =
       Some (Obj [(''items'', VObj (Obj [] None))] None)
   \<and> VObj (Obj [] None) \<noteq> VList ['''', ''b'']
   \<and> dash_marked ''  -a'' \<and> dash_marked ''  -b''
   \<and> map item_text [''  -a'', ''  -b''] = [''a'', ''b'']
   \<and> parseYamlBlock 5 (join_nl [''items:'', ''  -a'', ''  -b'']) =
       Some (Obj [(''items'', VObj (Obj [] None))] None)
   \<and> VObj (Obj [] None) \<noteq> VList [''a'', ''b'']
   \<and> dash_marked (''  -'' @ CHR 0x09 # ''a'')
   \<and> item_text (''  -'' @ CHR 0x09 # ''a'') = ''a''
   \<and> parseYamlBlock 5 (join_nl [''items:'', ''  -'' @ CHR 0x09 # ''a'', ''  - b'']) =
       Some (Obj [(''items'', VObj (Obj [] None))] None)"
  by (simp only: empty_item_lines simp_thms yval.distinct)

text \<open>
  Claim C6 as amended: a key with an empty value whose deeper-indented lines all begin
  with a dash, and whose first such line, without the white space around it, begins with a
  dash and a space, gets the sequence of those lines, in order, each without its dash and
  the white space around the rest; blank lines in between are not children. The loop goes
  on at line \<open>j\<close>, the first line indented no deeper than the key, or the end of the block.
\<close>

theorem dash_children_give_sequence:
  assumes "i < length lines"
    and "\<not> blank_line (lines ! i)" "\<not> comment_line (lines ! i)"
    and "kv_match (lines ! i) = Some (key, rest)"
    and "trim rest = []"
    and "i < j" "j \<le> length lines"
    and "children = filter (\<lambda>l. \<not> blank_line l) (take (j - (i + 1)) (drop (i + 1) lines))"
    and "children \<noteq> []"
    and "\<forall>c \<in> set children. search_nonspace (lines ! i) < search_nonspace c \<and> dash_marked c"
    and "starts_with ''- '' (trim (hd children))"
    and "j < length lines \<longrightarrow>
           \<not> blank_line (lines ! j) \<and> search_nonspace (lines ! j) \<le> search_nonspace (lines ! i)"
  shows "while_loop (Suc fuel) lines i result =
     while_loop fuel lines j (set_prop result key (VList (map item_text children)))"
proof -
  have deeper: "blank_line (lines ! k) \<or> search_nonspace (lines ! i) < search_nonspace (lines ! k)"
    if k: "i + 1 \<le> k" "k < j" for k
  proof (cases "blank_line (lines ! k)")
    case False
    from k assms(7) have "lines ! k = take (j - (i + 1)) (drop (i + 1) lines) ! (k - (i + 1))"
      by simp
    moreover from k assms(7) have "k - (i + 1) < length (take (j - (i + 1)) (drop (i + 1) lines))"
      by simp
    ultimately have "lines ! k \<in> set (take (j - (i + 1)) (drop (i + 1) lines))"
      by (metis nth_mem)
    with False have "lines ! k \<in> set children" by (simp add: assms(8))
    with assms(10) show ?thesis by blast
  qed simp
  have c: "collect_children lines (search_nonspace (lines ! i)) (i + 1) [] = (children, j)"
    using collect_children_span
      [of "i + 1" j lines "search_nonspace (lines ! i)" "[]"] assms(6,7,12) deeper
    by (simp add: assms(8))
  have eq: "map item_text children = map strip_dash children"
    using assms(10) by (simp add: strip_dash_item_text)
  show ?thesis
    using while_loop_block [OF assms(1-4) _ c, of fuel result] assms(5,9,11)
    by (simp add: eq)
qed

lemma items_lines2:
  "dash_marked ''  - a''" "dash_marked ''  - b''"
  "item_text ''  - a'' = ''a''" "item_text ''  - b'' = ''b''"
  by code_simp+

theorem dash_children_give_sequence_witness:
  "parseYamlBlock 2 (join_nl [''items:'', ''  - a'', ''  - b'', '''']) =
     Some (Obj [(''items'', VList [''a'', ''b''])] None)"
proof -
  have "while_loop (Suc (Suc 0)) [''items:'', ''  - a'', ''  - b'', ''''] 0 empty_obj =
      while_loop (Suc 0) [''items:'', ''  - a'', ''  - b'', ''''] 4
        (set_prop empty_obj ''items'' (VList (map item_text [''  - a'', ''  - b''])))"
    by (rule dash_children_give_sequence [where rest = "[]"])
       (simp_all add: items_lines items_lines2)
  also have "\<dots> = Some (Obj [(''items'', VList [''a'', ''b''])] None)"
    by (simp add: while_loop_end empty_obj_def items_lines2)
  finally show ?thesis
    by (simp only: parseYamlBlock_def items_lines(1) numeral_2_eq_2)
qed

section \<open>Inline JSON\<close>

lemma not_json_lines:
  "parseYamlBlock 3 (join_nl [''obj: {not json}'', ''next: 1'']) =
     Some (Obj [(''obj'', VStr ''{not json}''), (''next'', VStr ''1'')] None)"
  by code_simp

lemma inline_json_failure_falls_back:
  assumes "i < length lines"
    and "\<not> blank_line (lines ! i)" "\<not> comment_line (lines ! i)"
    and "kv_match (lines ! i) = Some (key, rest)"
    and "key \<noteq> ''__proto__''"
    and "starts_with ''{'' (trim rest) \<or> starts_with ''['' (trim rest)"
    and "JSON_parse (trim rest) = None"
  shows "while_loop (Suc fuel) lines i result =
     while_loop fuel lines (i + 1) (set_prop result key (VStr (trim rest)))"
proof -
  from assms(6,7) have v: "inline_value (trim rest) = VStr (trim rest)"
    by (auto simp: inline_value_def)
  from assms(6) have ne: "trim rest \<noteq> []" "trim rest \<noteq> ''|''" "trim rest \<noteq> ''>''"
    by (auto simp: starts_with_def)
  show ?thesis
    using while_loop_scalar [OF assms(1-4) ne assms(5), of "trim rest" _ fuel result] v
    by simp
qed

lemma inline_json_next_lines:
  \<open>split_nl (join_nl [''obj: {"a": 1}'', ''next: 1'']) = [''obj: {"a": 1}'', ''next: 1'']\<close>
  \<open>starts_with ''{'' ''{"a": 1}''\<close>
  \<open>JSON_parse ''{"a": 1}'' = Some (JObj [([97], JNum ''1'')])\<close>
  by code_simp+

text \<open>
  Claim C2 says that a value that JSON.parse accepts is stored as the parsed object or
  array and that parsing goes on with the remaining lines. The code stores the value but
  does not go on: the index stays on the same line, and the call never returns. (When
  JSON.parse rejects the value, the trimmed string is stored and parsing goes on, as the
  claim says: \<open>inline_json_failure_falls_back\<close>.)
\<close>

theorem inline_json_success_never_returns:
  assumes "i < length lines"
    and "\<not> blank_line (lines ! i)" "\<not> comment_line (lines ! i)"
    and "kv_match (lines ! i) = Some (key, rest)"
    and "starts_with ''{'' (trim rest) \<or> starts_with ''['' (trim rest)"
    and "JSON_parse (trim rest) = Some j"
  shows "inline_value (trim rest) = VJson j \<and> while_loop fuel lines i result = None"
proof -
  from assms(5) have ne: "trim rest \<noteq> []" "trim rest \<noteq> ''|''" "trim rest \<noteq> ''>''"
    by (auto simp: starts_with_def)
  from inline_value_json [OF assms(6,5)] while_loop_stuck [OF assms(1-4) ne]
  show ?thesis by simp
qed

theorem inline_json_success_never_returns_witness:
  \<open>\<forall>fuel. parseYamlBlock fuel (join_nl [''obj: {"a": 1}'', ''next: 1'']) = None\<close>
proof
  fix fuel
  have \<open>while_loop fuel [''obj: {"a": 1}'', ''next: 1''] 0 empty_obj = None\<close>
    using inline_json_success_never_returns
      [of 0 \<open>[''obj: {"a": 1}'', ''next: 1'']\<close> "''obj''" \<open>''{"a": 1}''\<close>
          \<open>JObj [([97], JNum ''1'')]\<close> fuel empty_obj]
    by (simp add: inline_json_line inline_json_next_lines)
  then show \<open>parseYamlBlock fuel (join_nl [''obj: {"a": 1}'', ''next: 1'']) = None\<close>
    by (simp only: parseYamlBlock_def inline_json_next_lines(1))
qed

section \<open>Extraction of the frontmatter block\<close>

lemma starts_with_iff: "starts_with p s \<longleftrightarrow> (\<exists>r. s = p @ r)"
proof
  assume "starts_with p s"
  then have "s = p @ drop (length p) s"
    by (metis append_take_drop_id starts_with_def)
  then show "\<exists>r. s = p @ r" ..
next
  assume "\<exists>r. s = p @ r"
  then show "starts_with p s" by (auto simp: starts_with_def)
qed

lemma closing_at_iff:
  "closing_at s \<longleftrightarrow> (\<exists>nl rest. line_break nl \<and> s = nl @ ''---'' @ rest)"
  unfolding closing_at_def starts_with_iff line_break_def by auto

lemma lazy_group_sound:
  "lazy_group s = Some g \<Longrightarrow>
     closing_at (drop (length g) s) \<and> take (length g) s = g
     \<and> (\<forall>k < length g. \<not> closing_at (drop k s))"
proof (induction s arbitrary: g)
  case Nil
  then show ?case by simp
next
  case (Cons c cs)
  show ?case
  proof (cases "closing_at (c # cs)")
    case True
    with Cons.prems show ?thesis by simp
  next
    case False
    with Cons.prems obtain g' where g': "lazy_group cs = Some g'" "g = c # g'"
      by auto
    from Cons.IH [OF g'(1)] False g'(2) show ?thesis
      by (auto simp: less_Suc_eq_0_disj)
  qed
qed

lemma lazy_group_complete:
  "closing_at (drop k s) \<Longrightarrow> \<exists>g. lazy_group s = Some g \<and> length g \<le> k"
proof (induction s arbitrary: k)
  case Nil
  then show ?case by (simp add: closing_at_def starts_with_def)
next
  case (Cons c cs)
  show ?case
  proof (cases "closing_at (c # cs)")
    case True
    then show ?thesis by simp
  next
    case False
    with Cons.prems obtain k' where k': "k = Suc k'"
      by (cases k) auto
    with Cons.prems have "closing_at (drop k' cs)" by simp
    from Cons.IH [OF this] False k' show ?thesis by auto
  qed
qed

lemma opening_cases:
  assumes "line_break nl"
  shows "frontmatter_match (''---'' @ nl @ s) = lazy_group s"
  using assms
  by (auto simp: frontmatter_match_def line_break_def starts_with_def CR_def LF_def)

lemma frontmatter_match_opening:
  assumes "frontmatter_match content = Some g"
  shows "\<exists>nl s. line_break nl \<and> content = ''---'' @ nl @ s \<and> lazy_group s = Some g"
proof -
  from assms have "starts_with (''---'' @ [CR, LF]) content \<or> starts_with (''---'' @ [LF]) content"
    by (auto simp: frontmatter_match_def split: if_splits)
  then obtain nl s where nl: "line_break nl" and c: "content = ''---'' @ nl @ s"
    unfolding starts_with_iff line_break_def by fastforce
  with assms opening_cases [OF nl, of s] show ?thesis by auto
qed

lemma line_break_unique:
  assumes "line_break nl" "line_break nl2" "nl @ s = nl2 @ s2"
  shows "nl = nl2 \<and> s = s2"
  using assms by (auto simp: line_break_def CR_def LF_def)


lemma frontmatter_match_sound:
  assumes "frontmatter_match content = Some block"
  shows "delimited content block"
    and "delimited content block2 \<Longrightarrow> length block \<le> length block2"
proof -
  from frontmatter_match_opening [OF assms] obtain nl s where
    nl: "line_break nl" and c: "content = ''---'' @ nl @ s" and g: "lazy_group s = Some block"
    by blast
  from lazy_group_sound [OF g] have cl: "closing_at (drop (length block) s)"
    and tk: "take (length block) s = block"
    and mn: "\<forall>k < length block. \<not> closing_at (drop k s)"
    by simp_all
  from cl obtain nl' rest where nl': "line_break nl'"
    and d: "drop (length block) s = nl' @ ''---'' @ rest"
    unfolding closing_at_iff by blast
  have "s = block @ nl' @ ''---'' @ rest"
    using tk d by (metis append_take_drop_id)
  with nl nl' c show "delimited content block"
    unfolding delimited_def by blast
  show "length block \<le> length block2" if "delimited content block2"
  proof (rule ccontr)
    assume "\<not> length block \<le> length block2"
    then have lt: "length block2 < length block" by simp
    from that obtain nl2 nl2' rest2 where nl2: "line_break nl2" "line_break nl2'"
      and c2: "content = ''---'' @ nl2 @ block2 @ nl2' @ ''---'' @ rest2"
      unfolding delimited_def by blast
    from c c2 have "nl @ s = nl2 @ block2 @ nl2' @ ''---'' @ rest2" by simp
    with line_break_unique [OF nl nl2(1)] have "s = block2 @ nl2' @ ''---'' @ rest2"
      by blast
    then have "closing_at (drop (length block2) s)"
      using nl2(2) unfolding closing_at_iff by auto
    with mn lt show False by blast
  qed
qed

lemma frontmatter_match_complete:
  assumes "delimited content block2"
  shows "\<exists>block. frontmatter_match content = Some block"
proof -
  from assms obtain nl nl' rest where nl: "line_break nl" "line_break nl'"
    and c: "content = ''---'' @ nl @ block2 @ nl' @ ''---'' @ rest"
    unfolding delimited_def by blast
  have "closing_at (drop (length block2) (block2 @ nl' @ ''---'' @ rest))"
    using nl(2) unfolding closing_at_iff by auto
  from lazy_group_complete [OF this] obtain g where
    "lazy_group (block2 @ nl' @ ''---'' @ rest) = Some g" by blast
  with opening_cases [OF nl(1), of "block2 @ nl' @ ''---'' @ rest"] c show ?thesis
    by simp
qed

lemma delimited_same_length:
  assumes "delimited content b" "delimited content b2" "length b = length b2"
  shows "b = b2"
proof -
  from assms(1) obtain nl nl' rest where nl: "line_break nl"
    and c: "content = ''---'' @ nl @ b @ nl' @ ''---'' @ rest"
    unfolding delimited_def by blast
  from assms(2) obtain nl2 nl2' rest2 where nl2: "line_break nl2"
    and c2: "content = ''---'' @ nl2 @ b2 @ nl2' @ ''---'' @ rest2"
    unfolding delimited_def by blast
  from c c2 have "nl @ b @ nl' @ ''---'' @ rest = nl2 @ b2 @ nl2' @ ''---'' @ rest2" by simp
  with line_break_unique [OF nl nl2]
  have "b @ nl' @ ''---'' @ rest = b2 @ nl2' @ ''---'' @ rest2" by blast
  with assms(3) show ?thesis by simp
qed

lemma split_nl_nonempty: "split_nl s \<noteq> []"
  by (induction s) (auto split: list.splits)

lemma split_nl_append_LF: "split_nl (xs @ LF # ys) = split_nl xs @ split_nl ys"
proof (induction xs)
  case Nil
  show ?case by simp
next
  case (Cons c xs)
  obtain l ls where "split_nl xs = l # ls"
    using split_nl_nonempty [of xs] by (cases "split_nl xs") auto
  with Cons show ?case by simp
qed

lemma split_nl_hd_append: "hd (split_nl (''---'' @ s)) = ''---'' @ hd (split_nl s)"
  using split_nl_nonempty [of s] by (cases "split_nl s") (auto simp: LF_def)

lemma delimited_lines:
  assumes "delimited content block"
  shows "begins_with_delimiter content"
    and "list_ex (starts_with ''---'') (tl (split_nl content))"
proof -
  from assms obtain nl nl' rest where nl: "line_break nl" "line_break nl'"
    and c: "content = ''---'' @ nl @ block @ nl' @ ''---'' @ rest"
    unfolding delimited_def by blast
  from nl(1) obtain p where p: "''---'' @ nl = p @ [LF]" "p = ''---'' \<or> p = ''---'' @ [CR]"
    by (auto simp: line_break_def)
  have "content = p @ LF # (block @ nl' @ ''---'' @ rest)"
    using c p(1) by (metis append.assoc append_Cons append_Nil)
  then have "split_nl content = split_nl p @ split_nl (block @ nl' @ ''---'' @ rest)"
    by (simp only: split_nl_append_LF)
  moreover have "split_nl p = [p]"
    using p(2) by (auto simp: LF_def CR_def)
  ultimately have first: "hd (split_nl content) = p"
    and tail: "tl (split_nl content) = split_nl (block @ nl' @ ''---'' @ rest)"
    by simp_all
  from first p(2) show "begins_with_delimiter content"
    by (auto simp: begins_with_delimiter_def delimiter_line_def)
  from nl(2) obtain q where q: "nl' = q @ [LF]"
    by (auto simp: line_break_def)
  have "block @ nl' @ ''---'' @ rest = (block @ q) @ LF # (''---'' @ rest)"
    using q by simp
  then have "split_nl (block @ nl' @ ''---'' @ rest) =
      split_nl (block @ q) @ split_nl (''---'' @ rest)"
    by (simp only: split_nl_append_LF)
  moreover have "hd (split_nl (''---'' @ rest)) \<in> set (split_nl (''---'' @ rest))"
    by (rule hd_in_set) (rule split_nl_nonempty)
  moreover have "starts_with ''---'' (hd (split_nl (''---'' @ rest)))"
    unfolding split_nl_hd_append starts_with_iff by blast
  ultimately show "list_ex (starts_with ''---'') (tl (split_nl content))"
    unfolding tail list_ex_iff by auto
qed

lemma join_nl_Cons: "ls \<noteq> [] \<Longrightarrow> join_nl (l # ls) = l @ LF # join_nl ls"
  by (cases ls) simp_all

lemma join_nl_split_nl: "join_nl (split_nl s) = s"
proof (induction s)
  case Nil
  show ?case by simp
next
  case (Cons c s)
  obtain l ls where x: "split_nl s = l # ls"
    using split_nl_nonempty [of s] by (cases "split_nl s") auto
  with Cons show ?case
    by (cases ls) (auto simp: x)
qed

lemma join_nl_append:
  "xs \<noteq> [] \<Longrightarrow> ys \<noteq> [] \<Longrightarrow> join_nl (xs @ ys) = join_nl xs @ LF # join_nl ys"
proof (induction xs rule: join_nl.induct)
  case 1
  then show ?case by simp
next
  case (2 l)
  then show ?case by (simp add: join_nl_Cons)
next
  case (3 l m ls)
  then show ?case by simp
qed

lemma lines_delimited:
  assumes "begins_with_delimiter content"
    and "list_ex (starts_with ''---'') (drop 2 (split_nl content))"
  shows "\<exists>block. delimited content block"
proof -
  from assms(2) obtain l where l: "l \<in> set (drop 2 (split_nl content))" "starts_with ''---'' l"
    unfolding list_ex_iff by blast
  from l(1) obtain pre post where sp: "drop 2 (split_nl content) = pre @ l # post"
    by (meson split_list)
  from l(2) obtain r where r: "l = ''---'' @ r"
    unfolding starts_with_iff by blast
  have "length (drop 2 (split_nl content)) = length (pre @ l # post)"
    by (simp only: sp)
  then have len: "2 < length (split_nl content)" by simp
  then obtain l0 t0 where l0: "split_nl content = l0 # t0"
    by (cases "split_nl content") simp_all
  with len obtain l1 t1 where l1: "t0 = l1 # t1"
    by (cases t0) simp_all
  have ls: "split_nl content = (l0 # l1 # pre) @ (l # post)"
    using sp by (simp add: l0 l1)
  have "content = join_nl (split_nl content)"
    by (simp only: join_nl_split_nl)
  also have "\<dots> = join_nl (l0 # l1 # pre) @ LF # join_nl (l # post)"
    unfolding ls by (rule join_nl_append) simp_all
  also have "join_nl (l0 # l1 # pre) = l0 @ LF # join_nl (l1 # pre)"
    by simp
  finally have c: "content = (l0 @ [LF]) @ join_nl (l1 # pre) @ [LF] @ join_nl (l # post)"
    by simp
  have "\<exists>tail. join_nl (l # post) = ''---'' @ tail"
  proof (cases "post = []")
    case True
    then have "join_nl (l # post) = ''---'' @ r" by (simp add: r)
    then show ?thesis by blast
  next
    case False
    then have "join_nl (l # post) = l @ LF # join_nl post" by (rule join_nl_Cons)
    then have "join_nl (l # post) = ''---'' @ (r @ LF # join_nl post)" by (simp add: r)
    then show ?thesis by blast
  qed
  then obtain tail where t: "join_nl (l # post) = ''---'' @ tail" by blast
  have "hd (split_nl content) = l0"
    by (simp only: l0 list.sel)
  with assms(1) have "l0 = ''---'' \<or> l0 = ''---'' @ [CR]"
    by (simp only: begins_with_delimiter_def delimiter_line_def)
  then have "l0 @ [LF] = ''---'' @ [LF] \<or> l0 @ [LF] = ''---'' @ [CR, LF]"
    by auto
  then obtain nl where nl: "line_break nl" and e: "l0 @ [LF] = ''---'' @ nl"
    unfolding line_break_def by blast
  from c have "content = ''---'' @ nl @ join_nl (l1 # pre) @ [LF] @ ''---'' @ tail"
    by (simp only: t e append_assoc)
  moreover have "line_break [LF]" by (simp add: line_break_def)
  ultimately have "delimited content (join_nl (l1 # pre))"
    unfolding delimited_def using nl by blast
  then show ?thesis ..
qed

lemma parseFrontmatter_not_Null:
  "frontmatter_match content = Some block \<Longrightarrow> parseFrontmatter fuel content \<noteq> Some Null"
  by (cases "parseYamlBlock fuel block") (simp_all add: parseFrontmatter_def)

lemma parseFrontmatter_no_match:
  "frontmatter_match content = None \<Longrightarrow> parseFrontmatter fuel content = Some Null"
  by (simp add: parseFrontmatter_def)

lemma hyphen_line_document:
  "frontmatter_match (join_nl [''---'', ''a: 1'', ''---b: 2'', ''---'', '''']) = Some ''a: 1''"
  "spec_frontmatter_block (join_nl [''---'', ''a: 1'', ''---b: 2'', ''---'', '''']) =
     Some (join_nl [''a: 1'', ''---b: 2''])"
  "''a: 1'' \<noteq> join_nl [''a: 1'', ''---b: 2'']"
  by code_simp+

text \<open>
  Claim C5 says that the block ends at the next line that consists of exactly three
  hyphens. The pattern has no anchor after the closing hyphens, so the block ends at the
  first later line that begins with three hyphens, here the entry line \<^verbatim>\<open>---b: 2\<close>.
\<close>

theorem frontmatter_block_counterexample:
  "frontmatter_match (join_nl [''---'', ''a: 1'', ''---b: 2'', ''---'', '''']) = Some ''a: 1''
   \<and> spec_frontmatter_block (join_nl [''---'', ''a: 1'', ''---b: 2'', ''---'', '''']) =
       Some (join_nl [''a: 1'', ''---b: 2''])
   \<and> ''a: 1'' \<noteq> join_nl [''a: 1'', ''---b: 2'']"
  by (simp only: hyphen_line_document simp_thms)

text \<open>
  Claim C5 as amended: the extracted block is the text strictly between the opening
  delimiter line (three hyphens at the start of the document, ended by LF or CR LF) and
  the first later line break that three hyphens follow; it is the shortest such text, and
  whatever follows those closing hyphens is not frontmatter.
\<close>

theorem frontmatter_match_shortest_block:
  "frontmatter_match content = Some block \<longleftrightarrow>
     delimited content block
     \<and> (\<forall>block2. delimited content block2 \<longrightarrow> length block \<le> length block2)"
proof
  assume "frontmatter_match content = Some block"
  from frontmatter_match_sound [OF this] show
    "delimited content block
     \<and> (\<forall>block2. delimited content block2 \<longrightarrow> length block \<le> length block2)"
    by blast
next
  assume r: "delimited content block
     \<and> (\<forall>block2. delimited content block2 \<longrightarrow> length block \<le> length block2)"
  with frontmatter_match_complete obtain g where g: "frontmatter_match content = Some g"
    by blast
  from frontmatter_match_sound [OF g] r have "delimited content g" "length g = length block"
    by (auto intro: le_antisym)
  with r delimited_same_length have "g = block" by blast
  with g show "frontmatter_match content = Some block" by simp
qed

lemma hyphen_line_document_delimited:
  "delimited (join_nl [''---'', ''a: 1'', ''---b: 2'', ''---'', ''''])
     (join_nl [''a: 1'', ''---b: 2''])"
  unfolding delimited_def
  by (intro exI [of _ "[LF]"] conjI) (simp_all add: line_break_def)

theorem frontmatter_match_shortest_block_witness:
  "delimited (join_nl [''---'', ''a: 1'', ''---b: 2'', ''---'', '''']) ''a: 1''
   \<and> delimited (join_nl [''---'', ''a: 1'', ''---b: 2'', ''---'', ''''])
        (join_nl [''a: 1'', ''---b: 2''])
   \<and> length ''a: 1'' \<le> length (join_nl [''a: 1'', ''---b: 2''])"
  using frontmatter_match_shortest_block
    [of "join_nl [''---'', ''a: 1'', ''---b: 2'', ''---'', '''']" "''a: 1''"]
    hyphen_line_document(1) hyphen_line_document_delimited
  by blast

section \<open>Round trip\<close>








lemma split_nl_no_LF: "LF \<notin> set l \<Longrightarrow> split_nl l = [l]"
  by (induction l) auto

lemma split_nl_join_nl:
  "ls \<noteq> [] \<Longrightarrow> \<forall>l \<in> set ls. LF \<notin> set l \<Longrightarrow> split_nl (join_nl ls) = ls"
proof (induction ls rule: join_nl.induct)
  case 1
  then show ?case by simp
next
  case (2 l)
  then show ?case by (simp add: split_nl_no_LF)
next
  case (3 l m ls)
  then have "split_nl (join_nl (m # ls)) = m # ls" by simp
  with "3.prems" show ?case
    by (simp add: split_nl_append_LF split_nl_no_LF)
qed









section \<open>Unique keys and overwriting\<close>

lemma wellformed_empty: "wellformed empty_obj"
  by (simp add: empty_obj_def)

lemma set_update_cases:
  "e \<in> set (AList.update k v ps) \<Longrightarrow> e = (k, v) \<or> e \<in> set ps"
  by (induction ps) (auto split: if_splits)

lemma wellformed_set_prop:
  assumes "wellformed r" "wellformed_val v"
  shows "wellformed (set_prop r k v)"
proof (cases r)
  case (Obj props pr)
  with assms show ?thesis
    by (auto simp: distinct_update dest!: set_update_cases)
qed

lemma inline_value_no_json:
  assumes "JSON_parse v = None \<or> (\<not> starts_with ''{'' v \<and> \<not> starts_with ''['' v)"
  shows "(\<exists>s. inline_value v = VStr s) \<or> (\<exists>b. inline_value v = VBool b)"
proof (cases "starts_with ''{'' v")
  case True
  with assms show ?thesis by (simp add: inline_value_def)
next
  case brace: False
  show ?thesis
  proof (cases "starts_with ''['' v")
    case True
    with assms brace show ?thesis by (simp add: inline_value_def)
  next
    case False
    with brace show ?thesis by (simp add: inline_value_def) blast+
  qed
qed

lemma inline_value_cases:
  "(\<exists>s. inline_value v = VStr s) \<or> (\<exists>b. inline_value v = VBool b)
   \<or> (\<exists>j. inline_value v = VJson j \<and> typeof (inline_value v) = TObject)"
proof (cases "JSON_parse v = None \<or> (\<not> starts_with ''{'' v \<and> \<not> starts_with ''['' v)")
  case True
  from inline_value_no_json [OF this] show ?thesis by blast
next
  case False
  then obtain j where "JSON_parse v = Some j" "starts_with ''{'' v \<or> starts_with ''['' v"
    by auto
  with inline_value_json [of v j] show ?thesis by simp
qed

lemma while_loop_wellformed:
  "while_loop n lines i r = Some r' \<Longrightarrow> wellformed r \<Longrightarrow> wellformed r'"
proof (induction n arbitrary: lines i r r')
  case 0
  then show ?case by (simp add: while_loop.simps)
next
  case (Suc n)
  show ?case
  proof (cases "i < length lines")
    case False
    with Suc.prems show ?thesis by (simp add: while_loop_end)
  next
    case lt: True
    show ?thesis
    proof (cases "blank_line (lines ! i) \<or> comment_line (lines ! i) \<or> kv_match (lines ! i) = None")
      case True
      with Suc.prems lt Suc.IH show ?thesis
        by (simp add: while_loop_skip)
    next
      case False
      then obtain key rest where kv: "kv_match (lines ! i) = Some (key, rest)"
        and nb: "\<not> blank_line (lines ! i)" "\<not> comment_line (lines ! i)"
        by auto
      show ?thesis
      proof (cases "trim rest = [] \<or> trim rest = ''|'' \<or> trim rest = ''>''")
        case True
        obtain cl j where c: "collect_children lines (search_nonspace (lines ! i)) (i + 1) [] = (cl, j)"
          by (cases "collect_children lines (search_nonspace (lines ! i)) (i + 1) []") auto
        note step = while_loop_block [OF lt nb kv True c, of n r]
        show ?thesis
        proof (cases "cl \<noteq> [] \<and> starts_with ''- '' (trim (hd cl))")
          case True
          with step Suc.prems(1)
          have "while_loop n lines j (set_prop r key (VList (map strip_dash cl))) = Some r'"
            by simp
          moreover have "wellformed (set_prop r key (VList (map strip_dash cl)))"
            using Suc.prems(2) by (simp add: wellformed_set_prop)
          ultimately show ?thesis by (rule Suc.IH)
        next
          case False
          with step Suc.prems(1) obtain sub where
            sub: "while_loop n (split_nl (join_nl cl)) 0 empty_obj = Some sub"
            and go: "while_loop n lines j (set_prop r key (VObj sub)) = Some r'"
            by (auto split: option.splits)
          from Suc.IH [OF sub wellformed_empty] Suc.prems(2)
          have "wellformed (set_prop r key (VObj sub))"
            by (simp add: wellformed_set_prop)
          with go show ?thesis by (rule Suc.IH)
        qed
      next
        case False
        then have ne: "trim rest \<noteq> []" "trim rest \<noteq> ''|''" "trim rest \<noteq> ''>''" by simp_all
        note step = while_loop_inline [OF lt nb kv ne, of n r]
        from inline_value_cases [of "trim rest"] show ?thesis
        proof (elim disjE exE conjE)
          fix j assume "inline_value (trim rest) = VJson j"
            and "typeof (inline_value (trim rest)) = TObject"
          with while_loop_stuck [OF lt nb kv ne, of "Suc n" r] Suc.prems(1)
          show ?thesis by simp
        next
          fix s assume "inline_value (trim rest) = VStr s"
          then have "wellformed (set_prop r key (inline_value (trim rest)))"
            using Suc.prems(2) by (simp add: wellformed_set_prop)
          with step Suc.prems(1) Suc.IH show ?thesis by auto
        next
          fix b assume "inline_value (trim rest) = VBool b"
          then have "wellformed (set_prop r key (inline_value (trim rest)))"
            using Suc.prems(2) by (simp add: wellformed_set_prop)
          with step Suc.prems(1) Suc.IH show ?thesis by auto
        qed
      qed
    qed
  qed
qed

lemma collect_children_bound:
  "collect_children lines indent i acc = (cl, j) \<Longrightarrow> i \<le> length lines \<Longrightarrow> j \<le> length lines"
proof (induction lines indent i acc rule: collect_children.induct)
  case (1 lines indent i childLines)
  show ?case
  proof (cases "i < length lines")
    case False
    with "1.prems" show ?thesis
      by (subst (asm) collect_children.simps) simp
  next
    case True
    with "1.prems" "1.IH" show ?thesis
      by (subst (asm) collect_children.simps) (auto simp: Let_def split: if_splits)
  qed
qed

lemma get_set_prop_other: "k \<noteq> key \<Longrightarrow> get_prop (set_prop r key v) k = get_prop r k"
  by (cases r) (auto simp: AList.update_conv')

section \<open>The key that names the prototype\<close>

text \<open>
  The key \<^verbatim>\<open>__proto__\<close> stops the loop in the same way, for every inline value: what is
  read back after the assignment is the prototype, an object, so the index stays.
\<close>

lemma while_loop_stuck_proto:
  assumes "i < length lines"
    and "\<not> blank_line (lines ! i)" "\<not> comment_line (lines ! i)"
    and "kv_match (lines ! i) = Some (''__proto__'', rest)"
    and "trim rest \<noteq> []" "trim rest \<noteq> ''|''" "trim rest \<noteq> ''>''"
  shows "wellformed result \<Longrightarrow> while_loop fuel lines i result = None"
proof (induction fuel arbitrary: result)
  case 0
  show ?case by (simp add: while_loop.simps)
next
  case (Suc fuel)
  let ?r = "set_prop result ''__proto__'' (inline_value (trim rest))"
  obtain props pr where r: "result = Obj props pr" by (cases result)
  have "typeof (inline_value (trim rest)) \<noteq> TObject \<Longrightarrow> ?r = result"
    by (simp add: r)
  moreover have "typeof (inline_value (trim rest)) = TObject \<Longrightarrow> while_loop (Suc fuel) lines i result = None"
    by (rule while_loop_stuck [OF assms])
  moreover have "\<not> advances (get_prop result ''__proto__'')"
    using Suc.prems by (cases pr) (simp_all add: r advances_def)
  ultimately show ?case
    using while_loop_inline [OF assms, of fuel result] Suc.IH [OF Suc.prems]
    by (cases "typeof (inline_value (trim rest)) = TObject") (simp_all add: get_set_prop)
qed

lemma proto_line_never_returns: "parseYamlBlock fuel ''__proto__: x'' = None"
proof -
  have l: "split_nl ''__proto__: x'' = [''__proto__: x'']"
    "kv_match ''__proto__: x'' = Some (''__proto__'', ''x'')"
    "\<not> blank_line ''__proto__: x''" "\<not> comment_line ''__proto__: x''" "trim ''x'' = ''x''"
    by code_simp+
  have "while_loop fuel [''__proto__: x''] 0 empty_obj = None"
    by (rule while_loop_stuck_proto [where rest = "''x''"])
       (simp_all add: l wellformed_empty)
  then show ?thesis by (simp only: parseYamlBlock_def l(1))
qed

section \<open>When a call returns\<close>

lemma advances_iff: "advances (Value v) \<longleftrightarrow> typeof v \<noteq> TObject"
proof (cases v)
  case (VJson j)
  then show ?thesis by (cases j) (simp_all add: advances_def)
qed (simp_all add: advances_def)

lemma split_nl_lines_no_LF: "l \<in> set (split_nl s) \<Longrightarrow> LF \<notin> set l"
proof (induction s arbitrary: l)
  case Nil
  then show ?case by simp
next
  case (Cons c s)
  obtain x xs where x: "split_nl s = x # xs"
    using split_nl_nonempty [of s] by (cases "split_nl s") auto
  with Cons show ?case
    by (cases "c = LF") (auto simp: x)
qed

lemma while_loop_returns:
  assumes "\<forall>l \<in> set lines. \<not> stuck_line l \<and> LF \<notin> set l"
    and "i \<le> length lines" "2 * length lines + 1 - i \<le> fuel"
  shows "\<exists>r'. while_loop fuel lines i r = Some r'"
  using assms
proof (induction fuel arbitrary: lines i r)
  case 0
  then show ?case by simp
next
  case (Suc f)
  show ?case
  proof (cases "i < length lines")
    case False
    then show ?thesis by (simp add: while_loop_end)
  next
    case lt: True
    then have mem: "lines ! i \<in> set lines" by simp
    have next_ok: "\<exists>r'. while_loop f lines j r2 = Some r'" if "i < j" "j \<le> length lines" for j r2
      using Suc.IH [OF Suc.prems(1) that(2), of r2] Suc.prems(3) that by simp
    show ?thesis
    proof (cases "blank_line (lines ! i) \<or> comment_line (lines ! i) \<or> kv_match (lines ! i) = None")
      case True
      with lt next_ok [of "i + 1"] show ?thesis
        by (simp add: while_loop_skip)
    next
      case False
      then obtain key rest where kv: "kv_match (lines ! i) = Some (key, rest)"
        and nb: "\<not> blank_line (lines ! i)" "\<not> comment_line (lines ! i)"
        by auto
      show ?thesis
      proof (cases "trim rest = [] \<or> trim rest = ''|'' \<or> trim rest = ''>''")
        case True
        obtain cl j where c: "collect_children lines (search_nonspace (lines ! i)) (i + 1) [] = (cl, j)"
          by (cases "collect_children lines (search_nonspace (lines ! i)) (i + 1) []") auto
        from collect_children_facts [OF c] collect_children_bound [OF c] lt
        have j: "i < j" "j \<le> length lines" and sub: "set cl \<subseteq> set lines"
          and len: "length cl + (i + 1) \<le> j"
          by auto
        note step = while_loop_block [OF lt nb kv True c, of f r]
        have nested: "\<exists>s. while_loop f (split_nl (join_nl cl)) 0 empty_obj = Some s"
        proof (cases "cl = []")
          case True
          from Suc.prems(3) lt have "2 \<le> f" by simp
          then obtain f' where "f = Suc (Suc f')"
            by (metis add_2_eq_Suc le_Suc_ex)
          with True show ?thesis by (simp add: while_loop_blank_text)
        next
          case False
          from sub Suc.prems(1) have ok: "\<forall>l \<in> set cl. \<not> stuck_line l \<and> LF \<notin> set l"
            by blast
          then have "split_nl (join_nl cl) = cl"
            using False by (simp add: split_nl_join_nl)
          moreover have "2 * length cl + 1 - 0 \<le> f"
            using len j Suc.prems(3) by simp
          ultimately show ?thesis
            using Suc.IH [OF ok, of 0 empty_obj] by simp
        qed
        show ?thesis
        proof (cases "cl \<noteq> [] \<and> starts_with ''- '' (trim (hd cl))")
          case True
          with step next_ok [OF j] show ?thesis by simp
        next
          case False
          from nested obtain s where "while_loop f (split_nl (join_nl cl)) 0 empty_obj = Some s"
            by blast
          with False step next_ok [OF j] show ?thesis by auto
        qed
      next
        case False
        then have ne: "trim rest \<noteq> []" "trim rest \<noteq> ''|''" "trim rest \<noteq> ''>''" by simp_all
        from Suc.prems(1) mem have "\<not> stuck_line (lines ! i)" by blast
        with kv nb ne have ns: "key \<noteq> ''__proto__''"
          "typeof (inline_value (trim rest)) \<noteq> TObject"
          by (simp_all add: stuck_line_def)
        then have "advances (get_prop (set_prop r key (inline_value (trim rest))) key)"
          by (simp add: get_set_prop advances_iff)
        with while_loop_inline [OF lt nb kv ne, of f r] next_ok [of "i + 1"] lt
        show ?thesis by simp
      qed
    qed
  qed
qed

text \<open>
  What keeps a call from returning is an entry line of one of two kinds, a valid inline
  JSON value or an inline value for the key \<^verbatim>\<open>__proto__\<close>: on every text without such a
  line \<^verbatim>\<open>parseYamlBlock\<close> returns a mapping, within a number of iterations linear in the
  number of lines.
\<close>

lemma parseYamlBlock_returns:
  assumes "\<forall>l \<in> set (split_nl text). \<not> stuck_line l"
    and "2 * length (split_nl text) + 1 \<le> fuel"
  shows "\<exists>r. parseYamlBlock fuel text = Some r"
  using assms split_nl_lines_no_LF [of _ "text"]
  unfolding parseYamlBlock_def
  by (intro while_loop_returns) auto

section \<open>The sentinel and the mapping\<close>

lemma delimiter_documents:
  "begins_with_delimiter (join_nl [''---'', ''a: 1'', ''----'', ''''])"
  "\<not> has_closing_delimiter (join_nl [''---'', ''a: 1'', ''----'', ''''])"
  "parseFrontmatter 3 (join_nl [''---'', ''a: 1'', ''----'', '''']) =
     Some (Mapping (Obj [(''a'', VStr ''1'')] None))"
  "begins_with_delimiter (join_nl [''---'', ''---'', ''''])"
  "has_closing_delimiter (join_nl [''---'', ''---'', ''''])"
  "parseFrontmatter 3 (join_nl [''---'', ''---'', '''']) = Some Null"
  \<open>begins_with_delimiter (join_nl [''---'', ''obj: {"a": 1}'', ''---'', ''''])\<close>
  \<open>has_closing_delimiter (join_nl [''---'', ''obj: {"a": 1}'', ''---'', ''''])\<close>
  by code_simp+

lemma inline_json_document_stuck:
  \<open>parseFrontmatter fuel (join_nl [''---'', ''obj: {"a": 1}'', ''---'', '''']) = None\<close>
proof -
  have \<open>while_loop fuel [''obj: {"a": 1}''] 0 empty_obj = None\<close>
    by (rule while_loop_stuck [where key = "''obj''" and rest = \<open>''{"a": 1}''\<close>])
       (simp_all add: inline_json_line)
  then show ?thesis
    by (simp only: parseFrontmatter_def inline_json_document option.case parseYamlBlock_def
          option.map)
qed

text \<open>
  Claim C3 says that the sentinel is returned exactly for the documents that lack the
  opening or the closing delimiter line, and a mapping for every document that has both.
  Three documents show otherwise. In the first, no line after the opening one consists of
  three hyphens, and the line \<^verbatim>\<open>----\<close> closes the block all the same, since the pattern
  has no anchor after the closing hyphens: a mapping is returned. The second consists of
  the two delimiter lines alone, and the pattern does not match it: the line break before
  the closing hyphens has to come after the one that ends the opening line. The third has
  both delimiter lines, around an inline JSON value on which the loop of the block parser
  stays: a hundred iterations do not return a mapping, and no number of them does.
\<close>

theorem delimiter_structure_counterexample:
  \<open>begins_with_delimiter (join_nl [''---'', ''a: 1'', ''----'', ''''])
   \<and> \<not> has_closing_delimiter (join_nl [''---'', ''a: 1'', ''----'', ''''])
   \<and> parseFrontmatter 3 (join_nl [''---'', ''a: 1'', ''----'', '''']) =
       Some (Mapping (Obj [(''a'', VStr ''1'')] None))
   \<and> begins_with_delimiter (join_nl [''---'', ''---'', ''''])
   \<and> has_closing_delimiter (join_nl [''---'', ''---'', ''''])
   \<and> parseFrontmatter 3 (join_nl [''---'', ''---'', '''']) = Some Null
   \<and> begins_with_delimiter (join_nl [''---'', ''obj: {"a": 1}'', ''---'', ''''])
   \<and> has_closing_delimiter (join_nl [''---'', ''obj: {"a": 1}'', ''---'', ''''])
   \<and> parseFrontmatter 100 (join_nl [''---'', ''obj: {"a": 1}'', ''---'', '''']) = None\<close>
  by (simp only: delimiter_documents inline_json_document_stuck simp_thms)

text \<open>
  Claim C3 as amended: the sentinel is returned for every document that does not begin
  with the three-hyphen delimiter line, and for every document in which no line after the
  first begins with three hyphens. For every document that begins with the delimiter line
  and in which a line after the second begins with three hyphens, the pattern matches and
  the result is never the sentinel: it is what the block parser makes of the extracted
  block, and that is a mapping whenever the block has no line on which the loop of the
  block parser stays (given fuel for two iterations a line and one more). Nothing is said
  of a document whose only lines that begin with three hyphens are its first two, nor of a
  block with a line on which the loop stays.
\<close>

theorem parseFrontmatter_null_or_mapping:
  "(\<not> begins_with_delimiter content \<longrightarrow> parseFrontmatter fuel content = Some Null)
   \<and> (\<not> list_ex (starts_with ''---'') (tl (split_nl content)) \<longrightarrow>
        parseFrontmatter fuel content = Some Null)
   \<and> (begins_with_delimiter content
        \<and> list_ex (starts_with ''---'') (drop 2 (split_nl content)) \<longrightarrow>
        (\<exists>block. frontmatter_match content = Some block \<and> delimited content block
           \<and> parseFrontmatter fuel content = map_option Mapping (parseYamlBlock fuel block)
           \<and> parseFrontmatter fuel content \<noteq> Some Null
           \<and> ((\<forall>l \<in> set (split_nl block). \<not> stuck_line l)
                \<and> 2 * length (split_nl block) + 1 \<le> fuel \<longrightarrow>
              (\<exists>m. parseFrontmatter fuel content = Some (Mapping m)))))"
proof (intro conjI impI)
  have none: "parseFrontmatter fuel content = Some Null"
    if "\<not> (begins_with_delimiter content
          \<and> list_ex (starts_with ''---'') (tl (split_nl content)))"
  proof (cases "frontmatter_match content")
    case None
    then show ?thesis by (rule parseFrontmatter_no_match)
  next
    case (Some g)
    from frontmatter_match_sound(1) [OF this] delimited_lines [of content g] that
    show ?thesis by blast
  qed
  show "parseFrontmatter fuel content = Some Null" if "\<not> begins_with_delimiter content"
    using that by (intro none) simp
  show "parseFrontmatter fuel content = Some Null"
    if "\<not> list_ex (starts_with ''---'') (tl (split_nl content))"
    using that by (intro none) simp
next
  assume a: "begins_with_delimiter content
    \<and> list_ex (starts_with ''---'') (drop 2 (split_nl content))"
  then obtain block2 where "delimited content block2"
    using lines_delimited by blast
  from frontmatter_match_complete [OF this] obtain block where
    g: "frontmatter_match content = Some block" by blast
  have res: "parseFrontmatter fuel content = map_option Mapping (parseYamlBlock fuel block)"
    using g by (simp add: parseFrontmatter_def)
  have "\<exists>m. parseFrontmatter fuel content = Some (Mapping m)"
    if "(\<forall>l \<in> set (split_nl block). \<not> stuck_line l) \<and> 2 * length (split_nl block) + 1 \<le> fuel"
  proof -
    from that parseYamlBlock_returns [of block fuel] obtain m where
      "parseYamlBlock fuel block = Some m" by blast
    with res show ?thesis by simp
  qed
  with g res frontmatter_match_sound(1) [OF g] parseFrontmatter_not_Null [OF g, of fuel]
  show "\<exists>block. frontmatter_match content = Some block \<and> delimited content block
     \<and> parseFrontmatter fuel content = map_option Mapping (parseYamlBlock fuel block)
     \<and> parseFrontmatter fuel content \<noteq> Some Null
     \<and> ((\<forall>l \<in> set (split_nl block). \<not> stuck_line l)
          \<and> 2 * length (split_nl block) + 1 \<le> fuel \<longrightarrow>
        (\<exists>m. parseFrontmatter fuel content = Some (Mapping m)))"
    by blast
qed

lemma sentinel_documents:
  "\<not> begins_with_delimiter ''name: x''"
  "\<not> list_ex (starts_with ''---'') (tl (split_nl (join_nl [''---'', ''name: x''])))"
  "begins_with_delimiter (join_nl [''---'', ''name: x'', ''---'', ''''])"
  "list_ex (starts_with ''---'') (drop 2 (split_nl (join_nl [''---'', ''name: x'', ''---'', ''''])))"
  "frontmatter_match (join_nl [''---'', ''name: x'', ''---'', '''']) = Some ''name: x''"
  "split_nl ''name: x'' = [''name: x'']"
  "\<not> stuck_line ''name: x''"
  "parseYamlBlock 3 ''name: x'' = Some (Obj [(''name'', VStr ''x'')] None)"
  "list_ex (starts_with ''---'') (drop 2 (split_nl (join_nl [''---'', ''a: 1'', ''----'', ''''])))"
  "frontmatter_match (join_nl [''---'', ''a: 1'', ''----'', '''']) = Some ''a: 1''"
  by code_simp+

theorem parseFrontmatter_null_or_mapping_witness:
  "\<not> begins_with_delimiter ''name: x''
   \<and> parseFrontmatter 0 ''name: x'' = Some Null
   \<and> \<not> list_ex (starts_with ''---'') (tl (split_nl (join_nl [''---'', ''name: x''])))
   \<and> parseFrontmatter 0 (join_nl [''---'', ''name: x'']) = Some Null
   \<and> begins_with_delimiter (join_nl [''---'', ''name: x'', ''---'', ''''])
   \<and> list_ex (starts_with ''---'') (drop 2 (split_nl (join_nl [''---'', ''name: x'', ''---'', ''''])))
   \<and> frontmatter_match (join_nl [''---'', ''name: x'', ''---'', '''']) = Some ''name: x''
   \<and> delimited (join_nl [''---'', ''name: x'', ''---'', '''']) ''name: x''
   \<and> \<not> stuck_line ''name: x''
   \<and> parseFrontmatter 3 (join_nl [''---'', ''name: x'', ''---'', '''']) \<noteq> Some Null
   \<and> (\<exists>m. parseFrontmatter 3 (join_nl [''---'', ''name: x'', ''---'', '''']) = Some (Mapping m))
   \<and> parseFrontmatter 3 (join_nl [''---'', ''name: x'', ''---'', '''']) =
       Some (Mapping (Obj [(''name'', VStr ''x'')] None))"
  using parseFrontmatter_null_or_mapping [of "''name: x''" 0]
    parseFrontmatter_null_or_mapping [of "join_nl [''---'', ''name: x'']" 0]
    parseFrontmatter_null_or_mapping [of "join_nl [''---'', ''name: x'', ''---'', '''']" 3]
    sentinel_documents
  by auto

section \<open>The entry line that decides a key\<close>

lemma entry_indices_end: "\<not> i < length lines \<Longrightarrow> entry_indices lines i = []"
  by (subst entry_indices.simps) simp

lemma entry_indices_skip:
  "i < length lines \<Longrightarrow> entry_of (lines ! i) = None \<Longrightarrow>
     entry_indices lines i = entry_indices lines (i + 1)"
  by (subst entry_indices.simps) simp

lemma entry_indices_inline:
  "i < length lines \<Longrightarrow> entry_of (lines ! i) = Some (key, v) \<Longrightarrow> \<not> opens_block v \<Longrightarrow>
     entry_indices lines i = i # entry_indices lines (i + 1)"
  by (subst entry_indices.simps) simp

lemma entry_indices_block:
  "i < length lines \<Longrightarrow> entry_of (lines ! i) = Some (key, v) \<Longrightarrow> opens_block v \<Longrightarrow>
     collect_children lines (search_nonspace (lines ! i)) (i + 1) [] = (cl, j) \<Longrightarrow>
     entry_indices lines i = i # entry_indices lines j"
  by (subst entry_indices.simps) simp

lemma last_entry_Cons:
  assumes "entry_indices lines i = i # entry_indices lines j"
  shows "last_entry lines i k =
     (case last_entry lines j k of
        Some n \<Rightarrow> Some n
      | None \<Rightarrow> if key_at lines i = Some k then Some i else None)"
  by (simp add: last_entry_def Let_def assms)

lemma last_entry_skip:
  "entry_indices lines i = entry_indices lines j \<Longrightarrow> last_entry lines i k = last_entry lines j k"
  by (simp add: last_entry_def)

lemma entry_of_None:
  "entry_of l = None \<longleftrightarrow> blank_line l \<or> comment_line l \<or> kv_match l = None"
  by (auto simp: entry_of_def split: option.splits)

lemma entry_of_Some:
  "entry_of l = Some (key, x) \<longleftrightarrow>
     \<not> blank_line l \<and> \<not> comment_line l \<and> (\<exists>rest. kv_match l = Some (key, rest) \<and> x = trim rest)"
  by (auto simp: entry_of_def split: option.splits)

text \<open>
  One entry line of a call that returns: the loop assigns the value of the line to its key
  and goes on at a later line.
\<close>

lemma while_loop_entry:
  assumes "while_loop (Suc f) lines i r = Some r'" "wellformed r"
    and "i < length lines" "entry_of (lines ! i) = Some (key, x)"
  shows "\<exists>j v. while_loop f lines j (set_prop r key v) = Some r'
     \<and> wellformed (set_prop r key v) \<and> entry_value returned lines i v
     \<and> entry_indices lines i = i # entry_indices lines j
     \<and> get_prop (set_prop r key v) key = Value v"
proof -
  from assms(4) obtain rest where nb: "\<not> blank_line (lines ! i)" "\<not> comment_line (lines ! i)"
    and kv: "kv_match (lines ! i) = Some (key, rest)" and x: "x = trim rest"
    unfolding entry_of_Some by blast
  show ?thesis
  proof (cases "opens_block x")
    case True
    then have tr: "trim rest = [] \<or> trim rest = ''|'' \<or> trim rest = ''>''"
      by (simp add: opens_block_def x)
    obtain cl j where c: "collect_children lines (search_nonspace (lines ! i)) (i + 1) [] = (cl, j)"
      by (cases "collect_children lines (search_nonspace (lines ! i)) (i + 1) []") auto
    note step = while_loop_block [OF assms(3) nb kv tr c, of f r]
    note idx = entry_indices_block [OF assms(3,4) True c]
    show ?thesis
    proof (cases "cl \<noteq> [] \<and> starts_with ''- '' (trim (hd cl))")
      case list: True
      let ?v = "VList (map strip_dash cl)"
      from list step assms(1) have "while_loop f lines j (set_prop r key ?v) = Some r'"
        by simp
      moreover have "wellformed (set_prop r key ?v)"
        using assms(2) by (simp add: wellformed_set_prop)
      moreover have "entry_value returned lines i ?v"
        using list True c by (simp add: entry_value_def assms(4))
      moreover have "get_prop (set_prop r key ?v) key = Value ?v"
        by (simp add: get_set_prop)
      ultimately show ?thesis using idx by blast
    next
      case nolist: False
      with step assms(1) obtain sub where
        sub: "while_loop f (split_nl (join_nl cl)) 0 empty_obj = Some sub"
        and go: "while_loop f lines j (set_prop r key (VObj sub)) = Some r'"
        by (auto split: option.splits)
      let ?v = "VObj sub"
      have "wellformed sub"
        using sub wellformed_empty by (rule while_loop_wellformed)
      then have "wellformed (set_prop r key ?v)"
        using assms(2) by (simp add: wellformed_set_prop)
      moreover have "returned (split_nl (join_nl cl)) sub"
        using sub unfolding returned_def by blast
      then have "entry_value returned lines i ?v"
        using nolist True c by (auto simp: entry_value_def assms(4))
      moreover have "get_prop (set_prop r key ?v) key = Value ?v"
        by (simp add: get_set_prop)
      ultimately show ?thesis using go idx by blast
    qed
  next
    case False
    then have ne: "trim rest \<noteq> []" "trim rest \<noteq> ''|''" "trim rest \<noteq> ''>''"
      by (simp_all add: opens_block_def x)
    let ?v = "inline_value (trim rest)"
    note step = while_loop_inline [OF assms(3) nb kv ne, of f r]
    have obj: "typeof ?v \<noteq> TObject"
    proof
      assume "typeof ?v = TObject"
      from while_loop_stuck [OF assms(3) nb kv ne this, of "Suc f" r] assms(1)
      show False by simp
    qed
    have key: "key \<noteq> ''__proto__''"
    proof
      assume "key = ''__proto__''"
      with kv have "kv_match (lines ! i) = Some (''__proto__'', rest)" by simp
      from while_loop_stuck_proto [OF assms(3) nb this ne assms(2), of "Suc f"] assms(1)
      show False by simp
    qed
    from obj inline_value_cases [of "trim rest"]
    have scalar: "(\<exists>s. ?v = VStr s) \<or> (\<exists>b. ?v = VBool b)" by auto
    then have wf: "wellformed (set_prop r key ?v)"
      using assms(2) by (auto simp: wellformed_set_prop)
    have get: "get_prop (set_prop r key ?v) key = Value ?v"
      using key by (simp add: get_set_prop)
    with obj have "advances (get_prop (set_prop r key ?v) key)"
      by (simp add: advances_iff)
    with step assms(1) have "while_loop f lines (i + 1) (set_prop r key ?v) = Some r'"
      by simp
    moreover have "entry_value returned lines i ?v"
      using False by (simp add: entry_value_def assms(4) x)
    ultimately show ?thesis
      using wf get entry_indices_inline [OF assms(3,4) False] by blast
  qed
qed

lemma while_loop_last_entry:
  assumes "while_loop fuel lines i r = Some r'" "wellformed r"
  shows "(last_entry lines i k = None \<longrightarrow> get_prop r' k = get_prop r k)
     \<and> (\<forall>n. last_entry lines i k = Some n \<longrightarrow>
           (\<exists>v. get_prop r' k = Value v \<and> entry_value returned lines n v))"
  using assms
proof (induction fuel arbitrary: i r)
  case 0
  then show ?case by (simp add: while_loop.simps)
next
  case (Suc f)
  show ?case
  proof (cases "i < length lines")
    case False
    with Suc.prems show ?thesis
      by (simp add: while_loop_end last_entry_def entry_indices_end)
  next
    case lt: True
    show ?thesis
    proof (cases "entry_of (lines ! i)")
      case None
      then have "blank_line (lines ! i) \<or> comment_line (lines ! i) \<or> kv_match (lines ! i) = None"
        by (simp add: entry_of_None)
      with Suc.prems(1) lt have "while_loop f lines (i + 1) r = Some r'"
        by (simp add: while_loop_skip)
      from Suc.IH [OF this Suc.prems(2)] last_entry_skip [OF entry_indices_skip [OF lt None], of k]
      show ?thesis by simp
    next
      case (Some e)
      obtain key x where e: "e = (key, x)" by (cases e)
      from while_loop_entry [OF Suc.prems lt Some [unfolded e]] obtain j v where
        go: "while_loop f lines j (set_prop r key v) = Some r'"
        and wf: "wellformed (set_prop r key v)" and asg: "entry_value returned lines i v"
        and idx: "entry_indices lines i = i # entry_indices lines j"
        and get: "get_prop (set_prop r key v) key = Value v"
        by blast
      note IH = Suc.IH [OF go wf]
      note le = last_entry_Cons [OF idx, of k]
      have ka: "key_at lines i = Some key"
        by (simp add: key_at_def Some e)
      show ?thesis
      proof (cases "last_entry lines j k")
        case (Some n)
        with IH le show ?thesis by simp
      next
        case None
        with IH have same: "get_prop r' k = get_prop (set_prop r key v) k" by simp
        show ?thesis
        proof (cases "key = k")
          case True
          with None le ka have "last_entry lines i k = Some i" by simp
          with same get asg True show ?thesis by auto
        next
          case False
          with None le ka have "last_entry lines i k = None" by simp
          with same False show ?thesis by (simp add: get_set_prop_other)
        qed
      qed
    qed
  qed
qed


lemma entry_value_mono:
  assumes "entry_value P lines n v" and "\<And>ls sub. P ls sub \<Longrightarrow> Q ls sub"
  shows "entry_value Q lines n v"
  using assms unfolding entry_value_def
  by (auto split: option.splits prod.splits if_splits)

lemma returned_last_write_wins:
  "returned lines r \<Longrightarrow> last_write_wins depth lines r"
proof (induction depth arbitrary: lines r)
  case 0
  show ?case by simp
next
  case (Suc depth)
  from Suc.prems obtain fuel where run: "while_loop fuel lines 0 empty_obj = Some r"
    unfolding returned_def by blast
  have "case last_entry lines 0 k of
          None \<Rightarrow> get_prop r k = get_prop empty_obj k
        | Some n \<Rightarrow> (\<exists>v. get_prop r k = Value v \<and> entry_value (last_write_wins depth) lines n v)"
    for k
  proof (cases "last_entry lines 0 k")
    case None
    with while_loop_last_entry [OF run wellformed_empty, of k] show ?thesis by simp
  next
    case (Some n)
    with while_loop_last_entry [OF run wellformed_empty, of k] obtain v where
      "get_prop r k = Value v" "entry_value returned lines n v" by auto
    with entry_value_mono [of returned lines n v "last_write_wins depth"] Suc.IH Some
    show ?thesis by auto
  qed
  then show ?case by simp
qed

text \<open>
  Claim C8: every mapping that the parser returns, and every mapping nested in it, has
  unique keys (its values are strings, booleans, lists of strings and such mappings
  again); and whatever the text, each key of the result has the value of the last entry
  line of the block that bears that key, be that value a scalar, a list or a nested
  mapping and whatever lines come before or after it, while a key that no entry line bears
  is absent. The same holds, block by block, for the mappings nested in the result, to
  every depth.
\<close>

theorem unique_keys_last_write_wins:
  assumes "parseYamlBlock fuel text = Some r"
  shows "wellformed r \<and> last_write_wins depth (split_nl text) r"
proof
  from assms show "wellformed r"
    unfolding parseYamlBlock_def by (rule while_loop_wellformed) (rule wellformed_empty)
  from assms have "returned (split_nl text) r"
    unfolding parseYamlBlock_def returned_def by blast
  then show "last_write_wins depth (split_nl text) r"
    by (rule returned_last_write_wins)
qed

lemma overwrite_lines:
  "parseYamlBlock 9 (join_nl [''a: 1'', ''m:'', ''  b: 1'', ''  b: 2'', ''a:'', ''  - x'', ''c: 3'']) =
     Some (Obj [(''a'', VList [''x'']), (''m'', VObj (Obj [(''b'', VStr ''2'')] None)),
                (''c'', VStr ''3'')] None)"
  "split_nl (join_nl [''a: 1'', ''m:'', ''  b: 1'', ''  b: 2'', ''a:'', ''  - x'', ''c: 3'']) =
     [''a: 1'', ''m:'', ''  b: 1'', ''  b: 2'', ''a:'', ''  - x'', ''c: 3'']"
  "entry_indices [''a: 1'', ''m:'', ''  b: 1'', ''  b: 2'', ''a:'', ''  - x'', ''c: 3''] 0 = [0, 1, 4, 6]"
  "last_entry [''a: 1'', ''m:'', ''  b: 1'', ''  b: 2'', ''a:'', ''  - x'', ''c: 3''] 0 ''a'' = Some 4"
  "last_entry [''a: 1'', ''m:'', ''  b: 1'', ''  b: 2'', ''a:'', ''  - x'', ''c: 3''] 0 ''m'' = Some 1"
  "collect_children [''a: 1'', ''m:'', ''  b: 1'', ''  b: 2'', ''a:'', ''  - x'', ''c: 3''] 0 2 [] =
     ([''  b: 1'', ''  b: 2''], 4)"
  "last_entry [''  b: 1'', ''  b: 2''] 0 ''b'' = Some 1"
  "entry_of ''  b: 2'' = Some (''b'', ''2'')" "inline_value ''2'' = VStr ''2''"
  by code_simp+

theorem unique_keys_last_write_wins_witness:
  "parseYamlBlock 9
     (join_nl [''a: 1'', ''m:'', ''  b: 1'', ''  b: 2'', ''a:'', ''  - x'', ''c: 3'']) =
     Some (Obj [(''a'', VList [''x'']), (''m'', VObj (Obj [(''b'', VStr ''2'')] None)),
                (''c'', VStr ''3'')] None)
   \<and> wellformed (Obj [(''a'', VList [''x'']), (''m'', VObj (Obj [(''b'', VStr ''2'')] None)),
                      (''c'', VStr ''3'')] None)
   \<and> last_write_wins 2 [''a: 1'', ''m:'', ''  b: 1'', ''  b: 2'', ''a:'', ''  - x'', ''c: 3'']
        (Obj [(''a'', VList [''x'']), (''m'', VObj (Obj [(''b'', VStr ''2'')] None)),
              (''c'', VStr ''3'')] None)
   \<and> entry_indices [''a: 1'', ''m:'', ''  b: 1'', ''  b: 2'', ''a:'', ''  - x'', ''c: 3''] 0 =
        [0, 1, 4, 6]
   \<and> last_entry [''a: 1'', ''m:'', ''  b: 1'', ''  b: 2'', ''a:'', ''  - x'', ''c: 3''] 0 ''a'' =
        Some 4
   \<and> last_entry [''a: 1'', ''m:'', ''  b: 1'', ''  b: 2'', ''a:'', ''  - x'', ''c: 3''] 0 ''m'' =
        Some 1
   \<and> collect_children [''a: 1'', ''m:'', ''  b: 1'', ''  b: 2'', ''a:'', ''  - x'', ''c: 3'']
        0 2 [] = ([''  b: 1'', ''  b: 2''], 4)
   \<and> last_entry [''  b: 1'', ''  b: 2''] 0 ''b'' = Some 1
   \<and> entry_of ''  b: 2'' = Some (''b'', ''2'')
   \<and> inline_value ''2'' = VStr ''2''"
  using unique_keys_last_write_wins [OF overwrite_lines(1), of 2] overwrite_lines
  by simp

end
